theory Spec2Isabelle
  imports Complex_Main "HOL-Library.Word" "HOL-Library.Multiset"
begin

section \<open>Geometry (rtree.h, rtree.cpp: Point, Rectangle)\<close>

text \<open>
  Coordinates are C++ \<open>double\<close>s. They are modelled as real numbers: the model covers
  finite coordinates (no NaN, no infinity) and treats the two arithmetic operations of
  \<open>area\<close> (one subtraction per axis, one product) and of \<open>area_increase\<close> (one
  subtraction) as exact. Comparisons, \<open>std::min\<close> and \<open>std::max\<close> are exact on
  doubles anyway. The fields \<open>x\<close> and \<open>y\<close> of \<open>Point\<close> are the selectors \<open>px\<close> and
  \<open>py\<close>.
\<close>

datatype Point = Point (px: real) (py: real)

datatype Rectangle = Rectangle (min_corner: Point) (max_corner: Point)

text \<open>\<open>Rectangle::Rectangle() = default\<close>: both corners are \<open>Point(0.0, 0.0)\<close>.\<close>

definition Rectangle_default :: Rectangle where
  "Rectangle_default = Rectangle (Point 0 0) (Point 0 0)"

text \<open>\<open>Rectangle(min_x, min_y, max_x, max_y)\<close>.\<close>

definition Rect :: "real \<Rightarrow> real \<Rightarrow> real \<Rightarrow> real \<Rightarrow> Rectangle" where
  "Rect min_x min_y max_x max_y = Rectangle (Point min_x min_y) (Point max_x max_y)"

text \<open>
  The test \<open>min_corner.x > max_corner.x || min_corner.y > max_corner.y\<close> that
  \<open>expand\<close>, \<open>combine\<close> and \<open>area_increase\<close> write out for "this rectangle is invalid".
\<close>

definition invalid :: "Rectangle \<Rightarrow> bool" where
  "invalid r \<longleftrightarrow>
     px (min_corner r) > px (max_corner r) \<or> py (min_corner r) > py (max_corner r)"

definition area :: "Rectangle \<Rightarrow> real" where
  "area r =
     (if px (max_corner r) < px (min_corner r) \<or> py (max_corner r) < py (min_corner r)
      then 0
      else (px (max_corner r) - px (min_corner r)) * (py (max_corner r) - py (min_corner r)))"

definition contains_point :: "Rectangle \<Rightarrow> Point \<Rightarrow> bool" where
  "contains_point r p \<longleftrightarrow>
     px p \<ge> px (min_corner r) \<and> px p \<le> px (max_corner r) \<and>
     py p \<ge> py (min_corner r) \<and> py p \<le> py (max_corner r)"

definition contains_rect :: "Rectangle \<Rightarrow> Rectangle \<Rightarrow> bool" where
  "contains_rect r other \<longleftrightarrow>
     px (min_corner other) \<ge> px (min_corner r) \<and>
     px (max_corner other) \<le> px (max_corner r) \<and>
     py (min_corner other) \<ge> py (min_corner r) \<and>
     py (max_corner other) \<le> py (max_corner r)"

definition intersects :: "Rectangle \<Rightarrow> Rectangle \<Rightarrow> bool" where
  "intersects r other =
     (if px (max_corner r) < px (min_corner other) \<or> px (min_corner r) > px (max_corner other) \<or>
         py (max_corner r) < py (min_corner other) \<or> py (min_corner r) > py (max_corner other)
      then False
      else True)"

text \<open>\<open>expand\<close> mutates \<open>*this\<close>; the model returns the new value of \<open>*this\<close>.\<close>

definition expand :: "Rectangle \<Rightarrow> Rectangle \<Rightarrow> Rectangle" where
  "expand r other =
     (if invalid other then r
      else if invalid r then other
      else Rectangle
             (Point (min (px (min_corner r)) (px (min_corner other)))
                    (min (py (min_corner r)) (py (min_corner other))))
             (Point (max (px (max_corner r)) (px (max_corner other)))
                    (max (py (max_corner r)) (py (max_corner other)))))"

definition combine :: "Rectangle \<Rightarrow> Rectangle \<Rightarrow> Rectangle" where
  "combine r1 r2 =
     (let r1_invalid = invalid r1; r2_invalid = invalid r2 in
      if r1_invalid \<and> r2_invalid then Rectangle_default
      else if r1_invalid then r2
      else if r2_invalid then r1
      else Rect (min (px (min_corner r1)) (px (min_corner r2)))
                (min (py (min_corner r1)) (py (min_corner r2)))
                (max (px (max_corner r1)) (px (max_corner r2)))
                (max (py (max_corner r1)) (py (max_corner r2))))"

definition area_increase :: "Rectangle \<Rightarrow> Rectangle \<Rightarrow> real" where
  "area_increase r other =
     (if invalid other then 0
      else if invalid r then area other
      else area (combine r other) - area r)"

section \<open>Stored items and nodes (rtree.h: DataItem, RTreeNode)\<close>

text \<open>
  \<open>DataItem\<close>: the field \<open>id\<close> is the selector \<open>item_id\<close>. \<open>id\<close> (an \<open>int\<close>) and
  \<open>population\<close> (a \<open>long\<close>) are only stored and compared, never computed with, so they
  are integers without a width.
\<close>

datatype DataItem =
  DataItem (item_id: int) (name: string) (population: int) (bounds: Rectangle)

text \<open>
  \<open>RTreeNode\<close>. A node owns its children through \<open>std::unique_ptr\<close>, so the ownership
  tree is a recursive datatype; a null \<open>unique_ptr\<close> is \<open>None\<close>. The non-owning
  \<open>parent\<close> pointer holds the address of another node, so every node carries its own
  address \<open>addr\<close> (the value of \<open>this\<close>), a natural number handed out by the allocator
  when the node is created, and \<open>parent\<close> is \<open>None\<close> for \<open>nullptr\<close>.
\<close>

datatype RTreeNode =
  RTreeNode (addr: nat) (mbr: Rectangle) (is_leaf: bool) (parent: "nat option")
            (data_entries: "DataItem list") (children: "RTreeNode option list")

text \<open>Field assignments.\<close>

definition set_mbr :: "Rectangle \<Rightarrow> RTreeNode \<Rightarrow> RTreeNode" where
  "set_mbr r n = RTreeNode (addr n) r (is_leaf n) (parent n) (data_entries n) (children n)"

definition set_parent :: "nat option \<Rightarrow> RTreeNode \<Rightarrow> RTreeNode" where
  "set_parent p n = RTreeNode (addr n) (mbr n) (is_leaf n) p (data_entries n) (children n)"

definition set_data_entries :: "DataItem list \<Rightarrow> RTreeNode \<Rightarrow> RTreeNode" where
  "set_data_entries es n = RTreeNode (addr n) (mbr n) (is_leaf n) (parent n) es (children n)"

definition set_children :: "RTreeNode option list \<Rightarrow> RTreeNode \<Rightarrow> RTreeNode" where
  "set_children cs n = RTreeNode (addr n) (mbr n) (is_leaf n) (parent n) (data_entries n) cs"

text \<open>\<open>RTreeNode(bool leaf)\<close>, constructed at the address \<open>a\<close>.\<close>

definition RTreeNode_new :: "nat \<Rightarrow> bool \<Rightarrow> RTreeNode" where
  "RTreeNode_new a leaf = RTreeNode a Rectangle_default leaf None [] []"

text \<open>\<open>size_t\<close> is a 64-bit unsigned integer.\<close>

type_synonym size_t = "64 word"

text \<open>\<open>RTreeNode::size\<close> (the name \<open>size\<close> is taken in HOL).\<close>

definition node_size :: "RTreeNode \<Rightarrow> size_t" where
  "node_size n =
     (if is_leaf n then of_nat (length (data_entries n)) else of_nat (length (children n)))"

definition is_full :: "RTreeNode \<Rightarrow> size_t \<Rightarrow> bool" where
  "is_full n max_entries \<longleftrightarrow> node_size n \<ge> max_entries"

text \<open>
  \<open>RTreeNode::update_mbr\<close>. The \<open>while\<close> loop that skips leading null children is
  \<open>first_valid_child_from\<close>, started at 0; the two \<open>for\<close> loops are folds of \<open>expand\<close>.
\<close>

function first_valid_child_from :: "RTreeNode option list \<Rightarrow> nat \<Rightarrow> nat" where
  "first_valid_child_from cs i =
     (if i < length cs \<and> cs ! i = None then first_valid_child_from cs (Suc i) else i)"
  by pat_completeness auto
termination
  by (relation "measure (\<lambda>(cs, i). length cs - i)") auto

definition expand_child :: "RTreeNode option \<Rightarrow> Rectangle \<Rightarrow> Rectangle" where
  "expand_child c m = (case c of None \<Rightarrow> m | Some ch \<Rightarrow> expand m (mbr ch))"

definition update_mbr :: "RTreeNode \<Rightarrow> RTreeNode" where
  "update_mbr n =
     (if is_leaf n then
        (if data_entries n = [] then set_mbr Rectangle_default n
         else set_mbr (fold (\<lambda>e m. expand m (bounds e)) (tl (data_entries n))
                            (bounds (data_entries n ! 0))) n)
      else
        (if children n = [] then set_mbr Rectangle_default n
         else
           (let first_valid_child = first_valid_child_from (children n) 0 in
            if first_valid_child \<ge> length (children n) then set_mbr Rectangle_default n
            else set_mbr (fold expand_child (drop (first_valid_child + 1) (children n))
                               (mbr (the (children n ! first_valid_child)))) n)))"

section \<open>The tree (rtree.h, rtree.cpp: RTree)\<close>

text \<open>
  The members \<open>root_\<close>, \<open>min_entries_\<close> and \<open>max_entries_\<close> are the fields \<open>root'\<close>,
  \<open>min_entries'\<close> and \<open>max_entries'\<close>. \<open>next_addr\<close> models the allocator: \<open>std::make_unique<RTreeNode>\<close> returns the address
  \<open>next_addr\<close>, distinct from every address handed out before, and increments it.
\<close>

record RTree =
  root' :: "RTreeNode option"
  min_entries' :: size_t
  max_entries' :: size_t
  next_addr :: nat

text \<open>The constructor (the warning it may print on \<open>std::cerr\<close> is not modelled).\<close>

definition RTree_new :: "size_t \<Rightarrow> size_t \<Rightarrow> RTree" where
  "RTree_new min_entries max_entries =
     (let mn = max 2 min_entries;
          mx = max 3 (max (mn * 2) max_entries)
      in \<lparr>root' = Some (RTreeNode_new 0 True), min_entries' = mn, max_entries' = mx,
          next_addr = 1\<rparr>)"

text \<open>The two \<open>std::runtime_error\<close>s of \<open>choose_subtree\<close>.\<close>

datatype error = NoChildren | NoValidChild

text \<open>\<open>std::numeric_limits<double>::max()\<close>, the largest finite double.\<close>

definition DBL_MAX :: real where
  "DBL_MAX = (2 ^ 53 - 1) * 2 ^ 971"

text \<open>
  \<open>choose_subtree\<close> returns a pointer to one of the node's children; the model returns
  the child's index in \<open>children\<close>. The loop state is \<open>(best_child, min_increase,
  min_area)\<close>; \<open>choose_step\<close> is the loop body for the child at index \<open>i\<close>.
\<close>

type_synonym choose_state = "nat option \<times> real \<times> real"

definition choose_step :: "Rectangle \<Rightarrow> nat \<Rightarrow> RTreeNode option \<Rightarrow> choose_state \<Rightarrow> choose_state" where
  "choose_step item_bounds i child_ptr st =
     (case child_ptr of
        None \<Rightarrow> st
      | Some child \<Rightarrow>
          (case st of (best_child, min_increase, min_area) \<Rightarrow>
             (let current_area = area (mbr child);
                  increase = area_increase (mbr child) item_bounds
              in if increase < min_increase then (Some i, increase, current_area)
                 else if increase = min_increase then
                   (if best_child = None \<or> current_area < min_area
                    then (Some i, min_increase, current_area)
                    else st)
                 else st)))"

fun choose_loop :: "Rectangle \<Rightarrow> RTreeNode option list \<Rightarrow> nat \<Rightarrow> choose_state \<Rightarrow> choose_state" where
  "choose_loop item_bounds [] i st = st"
| "choose_loop item_bounds (c # cs) i st =
     choose_loop item_bounds cs (Suc i) (choose_step item_bounds i c st)"

fun first_non_null :: "RTreeNode option list \<Rightarrow> nat \<Rightarrow> nat option" where
  "first_non_null [] i = None"
| "first_non_null (c # cs) i = (if c \<noteq> None then Some i else first_non_null cs (Suc i))"

definition choose_subtree :: "RTreeNode \<Rightarrow> Rectangle \<Rightarrow> error + nat" where
  "choose_subtree node item_bounds =
     (if children node = [] then Inl NoChildren
      else
        (let best_child = fst (choose_loop item_bounds (children node) 0 (None, DBL_MAX, DBL_MAX));
             best_child = (if best_child = None then first_non_null (children node) 0
                           else best_child)
         in case best_child of None \<Rightarrow> Inl NoValidChild | Some i \<Rightarrow> Inr i))"

text \<open>
  \<open>split_node\<close>. The computation of \<open>split_index\<close> is on \<open>size_t\<close>, where
  \<open>min_entries_ * 2\<close>, \<open>total_size - split_index\<close> and \<open>total_size + 1\<close> wrap around.
\<close>

definition split_index_of :: "size_t \<Rightarrow> size_t \<Rightarrow> size_t" where
  "split_index_of min_entries total_size =
     (let split_index = max min_entries (total_size div 2);
          split_index =
            (if total_size > min_entries * 2 then
               (let split_index =
                      (if total_size - split_index < min_entries
                       then total_size - min_entries else split_index)
                in if split_index < min_entries then min_entries else split_index)
             else (total_size + 1) div 2)
      in max 1 (min split_index (if total_size > 1 then total_size - 1 else 1)))"

text \<open>
  \<open>split_node\<close> mutates \<open>node\<close> and returns the new sibling, created at the address
  \<open>new_addr\<close>; the model returns both. The branches that move nothing only differ in a
  warning printed on \<open>std::cerr\<close>.
\<close>

definition split_node :: "size_t \<Rightarrow> nat \<Rightarrow> RTreeNode \<Rightarrow> RTreeNode \<times> RTreeNode" where
  "split_node min_entries new_addr node =
     (let total_size = node_size node;
          split_index = split_index_of min_entries total_size;
          new_node = set_parent (parent node) (RTreeNode_new new_addr (is_leaf node));
          (node, new_node) =
            (if is_leaf node then
               (if split_index < of_nat (length (data_entries node)) then
                  (set_data_entries (take (unat split_index) (data_entries node)) node,
                   set_data_entries (drop (unat split_index) (data_entries node)) new_node)
                else (node, new_node))
             else
               (if split_index < of_nat (length (children node)) then
                  (set_children (take (unat split_index) (children node)) node,
                   set_children
                     (map (map_option (set_parent (Some new_addr)))
                          (drop (unat split_index) (children node))) new_node)
                else (node, new_node)))
      in (update_mbr node, update_mbr new_node))"

text \<open>
  \<open>insert_recursive\<close> mutates the subtree under \<open>node\<close> and returns the new sibling or
  null; the model returns the subtree, the sibling and the allocator's next address, or
  the error thrown by \<open>choose_subtree\<close>.
\<close>

function insert_recursive ::
  "size_t \<Rightarrow> size_t \<Rightarrow> RTreeNode \<Rightarrow> DataItem \<Rightarrow> nat \<Rightarrow> error + (RTreeNode \<times> RTreeNode option \<times> nat)" where
  "insert_recursive mn mx node item a =
     (let node = set_mbr (expand (mbr node) (bounds item)) node in
      if is_leaf node then
        (let node = set_data_entries (data_entries node @ [item]) node in
         if is_full node mx
         then (case split_node mn a node of (node, new_node) \<Rightarrow> Inr (node, Some new_node, Suc a))
         else Inr (node, None, a))
      else
        (case choose_subtree node (bounds item) of
           Inl e \<Rightarrow> Inl e
         | Inr i \<Rightarrow>
             (case insert_recursive mn mx (the (children node ! i)) item a of
                Inl e \<Rightarrow> Inl e
              | Inr (child, potential_split_node, a) \<Rightarrow>
                  (let node = set_children ((children node)[i := Some child]) node in
                   case potential_split_node of
                     None \<Rightarrow> Inr (node, None, a)
                   | Some psn \<Rightarrow>
                       (let psn = set_parent (Some (addr node)) psn;
                            node = set_children (children node @ [Some psn]) node
                        in if is_full node mx
                           then (case split_node mn a node of
                                   (node, new_node) \<Rightarrow> Inr (node, Some new_node, Suc a))
                           else Inr (node, None, a))))))"
  by pat_completeness auto

text \<open>
  Termination of \<open>insert_recursive\<close>: \<open>choose_subtree\<close> returns the index of a non-null
  child, and a child is smaller than its parent.
\<close>

lemma choose_step_best:
  "fst (choose_step b i c st) = Some k \<Longrightarrow> fst st = Some k \<or> (k = i \<and> c \<noteq> None)"
  by (auto simp: choose_step_def Let_def split: option.splits prod.splits if_splits)

lemma choose_loop_best:
  "fst (choose_loop b cs i st) = Some k \<Longrightarrow>
   fst st = Some k \<or> (i \<le> k \<and> k < i + length cs \<and> cs ! (k - i) \<noteq> None)"
proof (induction cs arbitrary: i st)
  case Nil
  then show ?case by simp
next
  case (Cons c cs)
  from Cons.prems have "fst (choose_loop b cs (Suc i) (choose_step b i c st)) = Some k"
    by simp
  from Cons.IH [OF this]
  consider "fst (choose_step b i c st) = Some k"
    | "Suc i \<le> k" "k < Suc i + length cs" "cs ! (k - Suc i) \<noteq> None"
    by blast
  then show ?case
  proof cases
    case 1
    then show ?thesis using choose_step_best [OF 1] by auto
  next
    case 2
    then have "(c # cs) ! (k - i) = cs ! (k - Suc i)"
      by (simp add: nth_Cons')
    with 2 show ?thesis by auto
  qed
qed

lemma first_non_null_index:
  "first_non_null cs i = Some k \<Longrightarrow> i \<le> k \<and> k < i + length cs \<and> cs ! (k - i) \<noteq> None"
proof (induction cs arbitrary: i)
  case Nil
  then show ?case by simp
next
  case (Cons c cs)
  show ?case
  proof (cases "c = None")
    case True
    with Cons.prems have "first_non_null cs (Suc i) = Some k" by simp
    from Cons.IH [OF this] show ?thesis by (auto simp: nth_Cons')
  next
    case False
    with Cons.prems show ?thesis by auto
  qed
qed

lemma choose_subtree_index:
  assumes "choose_subtree n b = Inr i"
  shows "i < length (children n) \<and> children n ! i \<noteq> None"
proof -
  let ?best = "fst (choose_loop b (children n) 0 (None, DBL_MAX, DBL_MAX))"
  show ?thesis
  proof (cases "?best")
    case None
    with assms have "first_non_null (children n) 0 = Some i"
      by (auto simp: choose_subtree_def Let_def split: if_splits option.splits)
    from first_non_null_index [OF this] show ?thesis by simp
  next
    case (Some k)
    with assms have "k = i"
      by (auto simp: choose_subtree_def Let_def split: if_splits option.splits)
    with Some choose_loop_best [of b "children n" 0 "(None, DBL_MAX, DBL_MAX)" i]
    show ?thesis by simp
  qed
qed

lemma size_child_less:
  assumes "i < length (children n)" and "children n ! i \<noteq> None"
  shows "size (the (children n ! i)) < size n"
proof -
  obtain c where c: "children n ! i = Some c" using assms(2) by auto
  have "children n ! i \<in> set (children n)" using assms(1) by simp
  then have "size_option size (children n ! i) \<le> size_list (size_option size) (children n)"
    by (simp add: size_list_estimation')
  then show ?thesis using c by (cases n) simp
qed

lemma size_child_mem:
  assumes "Some c \<in> set (children n)"
  shows "size c < size n"
proof -
  from assms obtain i where "i < length (children n)" "children n ! i = Some c"
    by (auto simp: in_set_conv_nth)
  with size_child_less [of i n] show ?thesis by simp
qed

termination insert_recursive
proof (relation "measure (\<lambda>(mn, mx, node, item, a). size node)")
  show "wf (measure (\<lambda>(mn, mx, node, item, a). size node))" by simp
next
  fix mn mx :: size_t and node :: RTreeNode and item :: DataItem and a :: nat
    and x :: RTreeNode and i :: nat
  assume x: "x = set_mbr (expand (mbr node) (bounds item)) node"
    and ch: "choose_subtree x (bounds item) = Inr i"
  have "children x = children node" "size x = size node"
    using x by (cases node; simp add: set_mbr_def)+
  with choose_subtree_index [OF ch] size_child_less [of i x]
  show "((mn, mx, the (children x ! i), item, a), (mn, mx, node, item, a))
        \<in> measure (\<lambda>(mn, mx, node, item, a). size node)"
    by simp
qed

text \<open>
  \<open>RTree::insert\<close> (the name \<open>insert\<close> is taken in HOL). The result is the tree after
  the call, or the error that escaped from \<open>insert_recursive\<close>. \<open>old_root\<close> is the node
  \<open>root_\<close> points to before the new root is installed, \<open>split\<close> the local \<open>split_node\<close>.
\<close>

definition insert_rtree :: "RTree \<Rightarrow> DataItem \<Rightarrow> error + RTree" where
  "insert_rtree t item =
     (let t = (case root' t of
                 None \<Rightarrow> t\<lparr>root' := Some (RTreeNode_new (next_addr t) True),
                            next_addr := Suc (next_addr t)\<rparr>
               | Some r \<Rightarrow> t)
      in case insert_recursive (min_entries' t) (max_entries' t) (the (root' t)) item (next_addr t) of
           Inl e \<Rightarrow> Inl e
         | Inr (old_root, split, a) \<Rightarrow>
             (case split of
                None \<Rightarrow> Inr (t\<lparr>root' := Some old_root, next_addr := a\<rparr>)
              | Some split \<Rightarrow>
                  (let new_root = RTreeNode_new a False;
                       old_root = set_parent (Some (addr new_root)) old_root;
                       split = set_parent (Some (addr new_root)) split;
                       new_root = set_mbr (combine (mbr old_root) (mbr split)) new_root;
                       new_root = set_children (children new_root @ [Some old_root]) new_root;
                       new_root = set_children (children new_root @ [Some split]) new_root
                   in Inr (t\<lparr>root' := Some new_root, next_addr := Suc a\<rparr>))))"

text \<open>A sequence of \<open>insert\<close> calls; an exception ends it.\<close>

fun insert_all :: "RTree \<Rightarrow> DataItem list \<Rightarrow> error + RTree" where
  "insert_all t [] = Inr t"
| "insert_all t (item # items) =
     (case insert_rtree t item of Inl e \<Rightarrow> Inl e | Inr t' \<Rightarrow> insert_all t' items)"

text \<open>
  The two searches. \<open>results\<close> is the vector passed by reference, returned with the
  matches appended.
\<close>

function search_recursive :: "RTreeNode option \<Rightarrow> Rectangle \<Rightarrow> DataItem list \<Rightarrow> DataItem list" where
  "search_recursive None query_rect results = results"
| "search_recursive (Some node) query_rect results =
     (if is_leaf node then
        fold (\<lambda>item results.
                if intersects (bounds item) query_rect then results @ [item] else results)
             (data_entries node) results
      else
        fold (\<lambda>child_ptr results.
                if child_ptr \<noteq> None \<and> intersects (mbr (the child_ptr)) query_rect
                then search_recursive child_ptr query_rect results else results)
             (children node) results)"
  by pat_completeness auto
termination
  by (relation "measure (\<lambda>(n, q, res). size_option size n)") (auto simp: size_child_mem)

definition search :: "RTree \<Rightarrow> Rectangle \<Rightarrow> DataItem list" where
  "search t query_rect =
     (if root' t \<noteq> None \<and> intersects (mbr (the (root' t))) query_rect
      then search_recursive (root' t) query_rect []
      else [])"

function search_pop_recursive ::
  "RTreeNode option \<Rightarrow> Rectangle \<Rightarrow> int \<Rightarrow> DataItem list \<Rightarrow> DataItem list" where
  "search_pop_recursive None query_rect min_population results = results"
| "search_pop_recursive (Some node) query_rect min_population results =
     (if is_leaf node then
        fold (\<lambda>item results.
                if population item \<ge> min_population \<and> intersects (bounds item) query_rect
                then results @ [item] else results)
             (data_entries node) results
      else
        fold (\<lambda>child_ptr results.
                if child_ptr \<noteq> None \<and> intersects (mbr (the child_ptr)) query_rect
                then search_pop_recursive child_ptr query_rect min_population results
                else results)
             (children node) results)"
  by pat_completeness auto
termination
  by (relation "measure (\<lambda>(n, q, p, res). size_option size n)") (auto simp: size_child_mem)

definition search_with_population :: "RTree \<Rightarrow> Rectangle \<Rightarrow> int \<Rightarrow> DataItem list" where
  "search_with_population t query_rect min_population =
     (if root' t \<noteq> None \<and> intersects (mbr (the (root' t))) query_rect
      then search_pop_recursive (root' t) query_rect min_population []
      else [])"

text \<open>\<open>RTree::empty\<close> (the name \<open>empty\<close> is taken in HOL).\<close>

definition empty_rtree :: "RTree \<Rightarrow> bool" where
  "empty_rtree t \<longleftrightarrow> root' t = None \<or> node_size (the (root' t)) = 0"

section \<open>Notions used to state the properties\<close>

text \<open>
  The nodes of a subtree in document order, the nodes strictly below a node, and the
  items a search can reach: the entries of the leaves, through non-null children.
\<close>

function subtree_nodes :: "RTreeNode \<Rightarrow> RTreeNode list" where
  "subtree_nodes n =
     n # concat (map (\<lambda>c. case c of None \<Rightarrow> [] | Some ch \<Rightarrow> subtree_nodes ch) (children n))"
  by pat_completeness auto
termination
  by (relation "measure size") (auto simp: size_child_mem)

definition descendants :: "RTreeNode \<Rightarrow> RTreeNode list" where
  "descendants n =
     concat (map (\<lambda>c. case c of None \<Rightarrow> [] | Some ch \<Rightarrow> subtree_nodes ch) (children n))"

function items_of :: "RTreeNode \<Rightarrow> DataItem list" where
  "items_of n =
     (if is_leaf n then data_entries n
      else concat (map (\<lambda>c. case c of None \<Rightarrow> [] | Some ch \<Rightarrow> items_of ch) (children n)))"
  by pat_completeness auto
termination
  by (relation "measure size") (auto simp: size_child_mem)

definition tree_nodes :: "RTree \<Rightarrow> RTreeNode list" where
  "tree_nodes t = (case root' t of None \<Rightarrow> [] | Some r \<Rightarrow> subtree_nodes r)"

definition non_root_nodes :: "RTree \<Rightarrow> RTreeNode list" where
  "non_root_nodes t = (case root' t of None \<Rightarrow> [] | Some r \<Rightarrow> descendants r)"

definition tree_items :: "RTree \<Rightarrow> DataItem list" where
  "tree_items t = (case root' t of None \<Rightarrow> [] | Some r \<Rightarrow> items_of r)"

text \<open>
  The shape that every insertion keeps, for a node with capacity \<open>m\<close>: a leaf has no
  children and fewer than \<open>m\<close> entries; an internal node has at least one and fewer than
  \<open>m\<close> children, none of them null, each of that shape.
\<close>

function struct_ok :: "nat \<Rightarrow> RTreeNode \<Rightarrow> bool" where
  "struct_ok m n =
     (if is_leaf n then children n = [] \<and> length (data_entries n) < m
      else children n \<noteq> [] \<and> length (children n) < m \<and>
           (\<forall>c\<in>set (children n). case c of None \<Rightarrow> False | Some ch \<Rightarrow> struct_ok m ch))"
  by pat_completeness auto
termination
  by (relation "measure (\<lambda>(m, n). size n)") (auto simp: size_child_mem)

text \<open>
  Enclosure: the cached rectangle of every node is valid and contains (in the sense of
  \<open>Rectangle::contains\<close>) the bounds of the node's entries, which are valid, or the
  cached rectangles of its children.
\<close>

function encl :: "RTreeNode \<Rightarrow> bool" where
  "encl n =
     (\<not> invalid (mbr n) \<and>
      (if is_leaf n
       then (\<forall>e\<in>set (data_entries n). \<not> invalid (bounds e) \<and> contains_rect (mbr n) (bounds e))
       else (\<forall>c\<in>set (children n).
               case c of None \<Rightarrow> True | Some ch \<Rightarrow> contains_rect (mbr n) (mbr ch) \<and> encl ch)))"
  by pat_completeness auto
termination
  by (relation "measure size") (auto simp: size_child_mem)

text \<open>The value of \<open>size()\<close> as a number, and the position at which \<open>split_node\<close> cuts.\<close>

definition entry_count :: "RTreeNode \<Rightarrow> nat" where
  "entry_count n = (if is_leaf n then length (data_entries n) else length (children n))"

definition split_position :: "size_t \<Rightarrow> RTreeNode \<Rightarrow> nat" where
  "split_position mn node = unat (split_index_of mn (node_size node))"

declare items_of.simps [simp del] subtree_nodes.simps [simp del]

declare first_valid_child_from.simps [simp del]

declare struct_ok.simps [simp del] encl.simps [simp del] insert_recursive.simps [simp del]

section \<open>Notions used in the proofs\<close>

text \<open>The items reachable through a child pointer.\<close>

definition child_items :: "RTreeNode option \<Rightarrow> DataItem list" where
  "child_items c = (case c of None \<Rightarrow> [] | Some ch \<Rightarrow> items_of ch)"


text \<open>
  Both branches of \<open>insert_recursive\<close> end with the same statement: if the node is now
  full, split it and return the sibling, else return null.
\<close>

definition split_if_full ::
  "size_t \<Rightarrow> size_t \<Rightarrow> nat \<Rightarrow> RTreeNode \<Rightarrow> RTreeNode \<times> RTreeNode option \<times> nat" where
  "split_if_full mn mx a node =
     (if is_full node mx
      then (case split_node mn a node of (node, new_node) \<Rightarrow> (node, Some new_node, Suc a))
      else (node, None, a))"

text \<open>A node that just received one more entry or child and may be full.\<close>

definition struct_pre :: "nat \<Rightarrow> RTreeNode \<Rightarrow> bool" where
  "struct_pre m n \<longleftrightarrow>
     (if is_leaf n then children n = [] \<and> length (data_entries n) \<le> m
      else children n \<noteq> [] \<and> length (children n) \<le> m \<and>
           (\<forall>c\<in>set (children n). \<exists>ch. c = Some ch \<and> struct_ok m ch))"

text \<open>What one call of \<open>insert_recursive\<close> on \<open>node\<close> establishes for its results.\<close>

definition ins_post :: "nat \<Rightarrow> RTreeNode \<Rightarrow> DataItem \<Rightarrow> RTreeNode \<Rightarrow> RTreeNode option \<Rightarrow> bool" where
  "ins_post m node item node' sp \<longleftrightarrow>
     struct_ok m node' \<and> (\<forall>s. sp = Some s \<longrightarrow> struct_ok m s) \<and>
     mset (items_of node') + mset (child_items sp) = add_mset item (mset (items_of node)) \<and>
     (\<not> invalid (bounds item) \<and> encl node \<longrightarrow>
        encl node' \<and> contains_rect (expand (mbr node) (bounds item)) (mbr node') \<and>
        (\<forall>s. sp = Some s \<longrightarrow>
           encl s \<and> contains_rect (expand (mbr node) (bounds item)) (mbr s)))"

definition tree_ok :: "RTree \<Rightarrow> bool" where
  "tree_ok t \<longleftrightarrow>
     3 \<le> unat (max_entries' t) \<and>
     (\<exists>r. root' t = Some r \<and> struct_ok (unat (max_entries' t)) r)"

definition tree_encl :: "RTree \<Rightarrow> bool" where
  "tree_encl t \<longleftrightarrow> (\<exists>r. root' t = Some r \<and> encl r)"

section \<open>Concrete inputs\<close>

text \<open>The five items of \<open>test_rtree_basic_operations\<close> and the tree they build.\<close>

definition five_items :: "DataItem list" where
  "five_items =
     [DataItem 1 ''CityA'' 500000 (Rect 1 1 3 3),
      DataItem 2 ''CityB'' 1200000 (Rect 5 5 7 7),
      DataItem 3 ''CityC'' 800000 (Rect 0 5 2 7),
      DataItem 4 ''CityD'' 200000 (Rect 6 1 8 3),
      DataItem 5 ''CityE'' 1500000 (Rect 3 3 4 4)]"

definition five_tree :: RTree where
  "five_tree =
     \<lparr>root' = Some
        (RTreeNode 2 (Rect 0 1 8 7) False None []
          [Some (RTreeNode 0 (Rect 1 1 7 7) True (Some 2)
                   [DataItem 1 ''CityA'' 500000 (Rect 1 1 3 3),
                    DataItem 2 ''CityB'' 1200000 (Rect 5 5 7 7),
                    DataItem 5 ''CityE'' 1500000 (Rect 3 3 4 4)] []),
           Some (RTreeNode 1 (Rect 0 1 8 7) True (Some 2)
                   [DataItem 3 ''CityC'' 800000 (Rect 0 5 2 7),
                    DataItem 4 ''CityD'' 200000 (Rect 6 1 8 3)] [])]),
      min_entries' = 2, max_entries' = 4, next_addr = 3\<rparr>"

definition full_leaf :: RTreeNode where
  "full_leaf = RTreeNode 0 (Rect 0 0 8 7) True None five_items []"

definition example_internal :: RTreeNode where
  "example_internal =
     RTreeNode 9 (Rect 0 0 10 10) False None []
       [None,
        Some (RTreeNode 1 (Rect 0 0 4 4) True (Some 9) [] []),
        Some (RTreeNode 2 (Rect 5 5 7 7) True (Some 9) [] []),
        Some (RTreeNode 3 (Rect 5 5 6 6) True (Some 9) [] [])]"

definition negative_item :: DataItem where
  "negative_item = DataItem 1 ''a'' (- 1) (Rect 0 0 1 1)"

definition negative_tree :: RTree where
  "negative_tree =
     \<lparr>root' = Some (RTreeNode 0 (Rect 0 0 1 1) True None [negative_item] []),
      min_entries' = 2, max_entries' = 4, next_addr = 1\<rparr>"



definition childless_tree :: RTree where
  "childless_tree =
     \<lparr>root' = Some (RTreeNode 0 (Rect 0 0 1 1) False None [] []),
      min_entries' = 2, max_entries' = 4, next_addr = 1\<rparr>"

definition first_item :: DataItem where
  "first_item = DataItem 1 ''a'' 0 (Rect 5 5 6 6)"

definition first_root :: RTreeNode where
  "first_root = RTreeNode 0 (Rect 0 0 6 6) True None [first_item] []"

section \<open>Geometry: facts\<close>

lemma Rect_sel [simp]:
  "min_corner (Rect a b c d) = Point a b" "max_corner (Rect a b c d) = Point c d"
  by (simp_all add: Rect_def)

lemma Rectangle_default_sel [simp]:
  "min_corner Rectangle_default = Point 0 0" "max_corner Rectangle_default = Point 0 0"
  by (simp_all add: Rectangle_default_def)

lemma valid_Rectangle_default [simp]: "\<not> invalid Rectangle_default"
  by (simp add: invalid_def)

text \<open>
  C4 (the code at the failing input). \<open>intersects\<close> is the plain separating-axis test and,
  unlike \<open>area\<close>, \<open>expand\<close>, \<open>combine\<close> and \<open>area_increase\<close>, has no case for an invalid
  operand: the rectangle \<open>Rectangle(5, 0, 3, 1)\<close>, whose x-range is inverted, is reported
  to intersect \<open>Rectangle(0, 0, 10, 10)\<close>, in both argument orders.
\<close>

theorem intersects_invalid_operand:
  "invalid (Rect 5 0 3 1) \<and>
   intersects (Rect 5 0 3 1) (Rect 0 0 10 10) \<and>
   intersects (Rect 0 0 10 10) (Rect 5 0 3 1)"
  by (simp add: invalid_def intersects_def)

text \<open>
  C5, as stated, fails: for the invalid rectangle \<open>u = Rectangle(1, 1, 0, 0)\<close> and
  \<open>x = Rectangle(0, 0, 2, 2)\<close>, \<open>u.area_increase(x)\<close> is the area of \<open>x\<close>, which is 4
  and not 0.
\<close>

theorem area_increase_of_invalid_counterexample:
  "invalid (Rect 1 1 0 0) \<and> area_increase (Rect 1 1 0 0) (Rect 0 0 2 2) = 4"
  by (simp add: invalid_def area_increase_def area_def)

text \<open>
  C5, amended. For a valid rectangle \<open>v\<close> and an invalid rectangle \<open>u\<close>:
  \<open>combine(v, u)\<close> and \<open>combine(u, v)\<close> are \<open>v\<close>; for every rectangle \<open>x\<close>,
  \<open>x.area_increase(u)\<close> is 0, and \<open>u.area_increase(x)\<close> is 0 when \<open>x\<close> is invalid and
  the area of \<open>x\<close> otherwise.
\<close>

theorem invalid_geometry_algebra:
  assumes "\<not> invalid v" and "invalid u"
  shows "combine v u = v \<and> combine u v = v \<and>
         area_increase x u = 0 \<and>
         area_increase u x = (if invalid x then 0 else area x)"
  using assms by (simp add: combine_def area_increase_def)

theorem invalid_geometry_algebra_witness:
  "combine (Rect 0 0 2 2) (Rect 5 5 4 4) = Rect 0 0 2 2 \<and>
   combine (Rect 5 5 4 4) (Rect 0 0 2 2) = Rect 0 0 2 2 \<and>
   area_increase (Rect 1 1 3 3) (Rect 5 5 4 4) = 0 \<and>
   area_increase (Rect 5 5 4 4) (Rect 1 1 3 3) = 4"
proof -
  have v: "\<not> invalid (Rect 0 0 2 2)" by (simp add: invalid_def)
  have u: "invalid (Rect 5 5 4 4)" by (simp add: invalid_def)
  have x: "\<not> invalid (Rect 1 1 3 3)" by (simp add: invalid_def)
  have a: "area (Rect 1 1 3 3) = 4" by (simp add: area_def)
  show ?thesis
    using invalid_geometry_algebra [OF v u, of "Rect 1 1 3 3"] x a by simp
qed

text \<open>
  C10. The default-constructed rectangle has both corners at the origin and passes the
  validity test; its area is 0, it contains the point \<open>(0, 0)\<close>, and it intersects every
  rectangle \<open>r\<close> whose x-range and y-range both contain 0.
\<close>

theorem default_rectangle_is_point_box:
  assumes "px (min_corner r) \<le> 0" and "0 \<le> px (max_corner r)"
      and "py (min_corner r) \<le> 0" and "0 \<le> py (max_corner r)"
  shows "min_corner Rectangle_default = Point 0 0 \<and>
         max_corner Rectangle_default = Point 0 0 \<and>
         \<not> invalid Rectangle_default \<and>
         area Rectangle_default = 0 \<and>
         contains_point Rectangle_default (Point 0 0) \<and>
         intersects Rectangle_default r"
  using assms by (simp add: area_def contains_point_def intersects_def)

theorem default_rectangle_is_point_box_witness:
  "\<not> invalid Rectangle_default \<and> area Rectangle_default = 0 \<and>
   contains_point Rectangle_default (Point 0 0) \<and>
   intersects Rectangle_default (Rect (-1) (-2) 3 4)"
  using default_rectangle_is_point_box [of "Rect (-1) (-2) 3 4"] by simp

section \<open>The two searches\<close>

lemma fold_append_concat:
  assumes "\<And>x res. x \<in> set xs \<Longrightarrow> f x res = res @ g x"
  shows "fold f xs res = res @ concat (map g xs)"
  using assms by (induction xs arbitrary: res) simp_all

lemma fold_leaf_search:
  "fold (\<lambda>item results. if P item then results @ [item] else results) es res
   = res @ filter P es"
  by (induction es arbitrary: res) simp_all

lemma search_recursive_append:
  "search_recursive n q res = res @ search_recursive n q []"
proof (induction n q res rule: search_recursive.induct)
  case (1 q res)
  show ?case by simp
next
  case (2 node q res)
  show ?case
  proof (cases "is_leaf node")
    case True
    then show ?thesis by (simp add: fold_leaf_search)
  next
    case False
    let ?f = "\<lambda>child_ptr results.
                if child_ptr \<noteq> None \<and> intersects (mbr (the child_ptr)) q
                then search_recursive child_ptr q results else results"
    let ?g = "\<lambda>child_ptr.
                if child_ptr \<noteq> None \<and> intersects (mbr (the child_ptr)) q
                then search_recursive child_ptr q [] else []"
    have step: "?f x r = r @ ?g x" if "x \<in> set (children node)" for x r
    proof (cases "x \<noteq> None \<and> intersects (mbr (the x)) q")
      case True
      have eq: "search_recursive x q r = r @ search_recursive x q []"
        by (rule "2.IH" [OF False that True])
      show ?thesis unfolding if_P [OF True] by (rule eq)
    next
      case False
      show ?thesis unfolding if_not_P [OF False] by simp
    qed
    have "fold ?f (children node) r = r @ concat (map ?g (children node))" for r
      by (rule fold_append_concat) (rule step)
    from this [of res] this [of "[]"] False show ?thesis
      by (simp only: search_recursive.simps if_False append_Nil)
  qed
qed

lemma search_recursive_internal:
  assumes "\<not> is_leaf node"
  shows "search_recursive (Some node) q [] =
         concat (map (\<lambda>c. if c \<noteq> None \<and> intersects (mbr (the c)) q
                           then search_recursive c q [] else []) (children node))"
proof -
  let ?f = "\<lambda>child_ptr results.
              if child_ptr \<noteq> None \<and> intersects (mbr (the child_ptr)) q
              then search_recursive child_ptr q results else results"
  let ?g = "\<lambda>c. if c \<noteq> None \<and> intersects (mbr (the c)) q
                 then search_recursive c q [] else []"
  have "fold ?f (children node) [] = [] @ concat (map ?g (children node))"
  proof (rule fold_append_concat)
    fix x r
    show "?f x r = r @ ?g x"
    proof (cases "x \<noteq> None \<and> intersects (mbr (the x)) q")
      case True
      show ?thesis unfolding if_P [OF True] by (rule search_recursive_append)
    next
      case False
      show ?thesis unfolding if_not_P [OF False] by simp
    qed
  qed
  with assms show ?thesis by simp
qed

lemma search_recursive_leaf:
  assumes "is_leaf node"
  shows "search_recursive (Some node) q [] =
         filter (\<lambda>item. intersects (bounds item) q) (data_entries node)"
  using assms by (simp add: fold_leaf_search)

lemma search_pop_recursive_filter:
  "search_pop_recursive n q p res =
   res @ filter (\<lambda>item. p \<le> population item) (search_recursive n q [])"
proof (induction n q p res rule: search_pop_recursive.induct)
  case (1 q p res)
  show ?case by simp
next
  case (2 node q p res)
  show ?case
  proof (cases "is_leaf node")
    case True
    have "(\<lambda>item. p \<le> population item \<and> intersects (bounds item) q)
          = (\<lambda>item. intersects (bounds item) q \<and> p \<le> population item)"
      by auto
    with True show ?thesis
      by (simp add: fold_leaf_search del: search_recursive.simps
               add: search_recursive_leaf)
  next
    case False
    let ?f = "\<lambda>child_ptr results.
                if child_ptr \<noteq> None \<and> intersects (mbr (the child_ptr)) q
                then search_pop_recursive child_ptr q p results else results"
    let ?g = "\<lambda>c. if c \<noteq> None \<and> intersects (mbr (the c)) q
                   then search_recursive c q [] else []"
    let ?h = "\<lambda>c. filter (\<lambda>item. p \<le> population item) (?g c)"
    have step: "?f x r = r @ ?h x" if "x \<in> set (children node)" for x r
    proof (cases "x \<noteq> None \<and> intersects (mbr (the x)) q")
      case True
      have eq: "search_pop_recursive x q p r
            = r @ filter (\<lambda>item. p \<le> population item) (search_recursive x q [])"
        by (rule "2.IH" [OF False that True])
      show ?thesis unfolding if_P [OF True] by (rule eq)
    next
      case False
      show ?thesis unfolding if_not_P [OF False] by simp
    qed
    have "fold ?f (children node) res = res @ concat (map ?h (children node))"
      by (rule fold_append_concat) (rule step)
    moreover have "concat (map ?h (children node))
                   = filter (\<lambda>item. p \<le> population item) (concat (map ?g (children node)))"
      by (simp add: filter_concat comp_def)
    ultimately show ?thesis
      using False by (simp add: search_recursive_internal del: search_recursive.simps)
  qed
qed

lemma search_recursive_subset_items:
  "set (search_recursive (Some n) q []) \<subseteq> set (items_of n)"
proof (induction n rule: items_of.induct)
  case (1 n)
  show ?case
  proof (cases "is_leaf n")
    case True
    then show ?thesis
      by (subst items_of.simps) (auto simp: search_recursive_leaf simp del: search_recursive.simps)
  next
    case False
    have "set (search_recursive (Some ch) q []) \<subseteq> set (items_of ch)"
      if "Some ch \<in> set (children n)" for ch
      using "1.IH" [OF False that] by simp
    then show ?thesis
      using False
      by (subst items_of.simps)
         (auto simp: search_recursive_internal simp del: search_recursive.simps
               split: if_splits option.splits)
  qed
qed

lemma search_subset_tree_items: "set (search t q) \<subseteq> set (tree_items t)"
  using search_recursive_subset_items [of "the (root' t)" q]
  by (auto simp: search_def tree_items_def simp del: search_recursive.simps split: option.splits)

text \<open>
  C3, as stated, fails for the threshold 0: \<open>population\<close> is a signed \<open>long\<close>, and a tree
  holding one item of population \<open>-1\<close> returns it from \<open>search\<close> but not from
  \<open>search_with_population\<close> with threshold 0.
\<close>

theorem search_with_population_zero_counterexample:
  "insert_rtree (RTree_new 2 4) negative_item = Inr negative_tree \<and>
   search negative_tree (Rect 0 0 1 1) = [negative_item] \<and>
   search_with_population negative_tree (Rect 0 0 1 1) 0 = []"
  unfolding negative_tree_def negative_item_def by code_simp

text \<open>
  C3, amended. For every tree state, query rectangle and threshold,
  \<open>search_with_population\<close> returns the items of \<open>search\<close> whose population is at least
  the threshold, in the same order; when the threshold is at most the population of
  every stored item (so for threshold 0 when no stored population is negative) the two
  results are equal.
\<close>

theorem search_with_population_filters_search:
  "search_with_population t q p = filter (\<lambda>item. population item \<ge> p) (search t q) \<and>
   ((\<forall>item\<in>set (tree_items t). p \<le> population item) \<longrightarrow>
      search_with_population t q p = search t q)"
proof -
  have eq: "search_with_population t q p = filter (\<lambda>item. population item \<ge> p) (search t q)"
    by (simp add: search_with_population_def search_def search_pop_recursive_filter)
  moreover have "filter (\<lambda>item. population item \<ge> p) (search t q) = search t q"
    if "\<forall>item\<in>set (tree_items t). p \<le> population item"
    using that search_subset_tree_items [of t q] by (auto simp: filter_id_conv)
  ultimately show ?thesis by simp
qed

theorem search_with_population_filters_search_witness:
  "search_with_population negative_tree (Rect 0 0 1 1) (- 1) = search negative_tree (Rect 0 0 1 1) \<and>
   search_with_population negative_tree (Rect 0 0 1 1) 0
     = filter (\<lambda>item. population item \<ge> 0) (search negative_tree (Rect 0 0 1 1))"
proof -
  have "\<forall>item\<in>set (tree_items negative_tree). - 1 \<le> population item"
    unfolding negative_tree_def negative_item_def by code_simp
  with search_with_population_filters_search [of negative_tree "Rect 0 0 1 1" "- 1"]
       search_with_population_filters_search [of negative_tree "Rect 0 0 1 1" 0]
  show ?thesis by blast
qed

section \<open>Subtree selection\<close>





section \<open>The split index\<close>

lemma unat_max: "unat (max a b) = max (unat a) (unat (b::'a::len word))"
  by (simp add: max_def word_le_nat_alt)

lemma unat_min: "unat (min a b) = min (unat a) (unat (b::'a::len word))"
  by (simp add: min_def word_le_nat_alt)

lemma unat_minus_one_size_t:
  assumes "1 \<le> unat (t :: size_t)"
  shows "unat (t - 1) = unat t - 1"
  using assms by (simp add: unat_sub word_le_nat_alt)

lemma split_index_clamp:
  assumes "2 \<le> unat ts"
  shows "split_index_of mn ts = max 1 (min s (ts - 1)) \<Longrightarrow>
         1 \<le> unat (split_index_of mn ts) \<and> unat (split_index_of mn ts) < unat ts"
  using assms by (simp add: unat_max unat_min unat_minus_one_size_t)

lemma split_index_range:
  assumes "2 \<le> unat ts"
  shows "1 \<le> unat (split_index_of mn ts) \<and> unat (split_index_of mn ts) < unat ts"
proof -
  have gt: "ts > 1" using assms by (simp add: word_less_nat_alt)
  then obtain s where "split_index_of mn ts = max 1 (min s (ts - 1))"
    by (simp add: split_index_of_def Let_def)
  from split_index_clamp [OF assms this] show ?thesis .
qed

lemma unat_div2: "unat ((t :: size_t) div 2) = unat t div 2"
  by (simp add: unat_div)

lemma unat_twice:
  assumes "unat (mn :: size_t) < 2 ^ 63"
  shows "unat (mn * 2) = 2 * unat mn"
proof -
  have "unat mn * unat (2 :: size_t) < 2 ^ LENGTH(64)" using assms by simp
  then have "unat (mn * 2) = unat mn * unat (2 :: size_t)" by (simp only: unat_mult_lem [THEN iffD1])
  then show ?thesis by simp
qed

lemma split_index_half:
  assumes "2 \<le> unat ts" and "2 * unat mn \<le> unat ts"
  shows "unat (split_index_of mn ts) = unat ts div 2"
proof -
  have lt: "unat ts < 2 ^ 64" using unsigned_less [of ts] by simp
  have mn: "unat mn < 2 ^ 63" using assms(2) lt by simp
  have gt: "ts > 1" using assms by (simp add: word_less_nat_alt)
  have m2: "unat (mn * 2) = 2 * unat mn" by (rule unat_twice [OF mn])
  have half: "unat (max mn (ts div 2)) = unat ts div 2"
    using assms(2) by (simp add: unat_max unat_div2)
  have s0: "max mn (ts div 2) = ts div 2"
    using half by (simp add: word_unat_eq_iff unat_div2)
  have inner: "unat (if ts > mn * 2 then
               (let split_index =
                      (if ts - (ts div 2) < mn
                       then ts - mn else (ts div 2))
                in if split_index < mn then mn else split_index)
             else (ts + 1) div 2) = unat ts div 2"
  proof (cases "ts > mn * 2")
    case True
    then have big: "2 * unat mn < unat ts" by (simp add: word_less_nat_alt m2)
    have sub: "unat (ts - ts div 2) = unat ts - unat ts div 2"
      by (simp add: unat_sub word_le_nat_alt unat_div2)
    have "\<not> ts - ts div 2 < mn"
      using big by (simp add: word_less_nat_alt sub)
    moreover have "\<not> ts div 2 < mn"
      using big by (simp add: word_less_nat_alt unat_div2)
    ultimately show ?thesis using True by (simp add: unat_div2)
  next
    case False
    then have eq: "unat ts = 2 * unat mn"
      using assms(2) by (simp add: word_less_nat_alt m2)
    have "unat ts + unat (1 :: size_t) < 2 ^ LENGTH(64)" using eq mn by simp
    then have "unat (ts + 1) = unat ts + 1"
      by (simp only: unat_add_lem [THEN iffD1] unat_1)
    then show ?thesis using False eq by (simp add: unat_div2)
  qed
  have "split_index_of mn ts
        = max 1 (min (if ts > mn * 2 then
               (let split_index =
                      (if ts - (ts div 2) < mn
                       then ts - mn else (ts div 2))
                in if split_index < mn then mn else split_index)
             else (ts + 1) div 2) (ts - 1))"
    using gt by (simp add: split_index_of_def s0 Let_def)
  then show ?thesis
    using assms(1) by (simp add: unat_max unat_min inner unat_minus_one_size_t)
qed

lemma split_index_ceil:
  assumes "2 \<le> unat ts" and "unat ts < 2 * unat mn" and "unat mn < 2 ^ 63"
  shows "unat (split_index_of mn ts) = (unat ts + 1) div 2"
proof -
  have gt: "ts > 1" using assms by (simp add: word_less_nat_alt)
  have m2: "unat (mn * 2) = 2 * unat mn" by (rule unat_twice [OF assms(3)])
  have no: "\<not> ts > mn * 2" using assms(2) by (simp add: word_less_nat_alt m2)
  have "unat ts + unat (1 :: size_t) < 2 ^ LENGTH(64)" using assms(2,3) by simp
  then have "unat (ts + 1) = unat ts + 1"
    by (simp only: unat_add_lem [THEN iffD1] unat_1)
  then have c: "unat ((ts + 1) div 2) = (unat ts + 1) div 2" by (simp add: unat_div2)
  have "split_index_of mn ts = max 1 (min ((ts + 1) div 2) (ts - 1))"
    using gt no by (simp add: split_index_of_def Let_def)
  then show ?thesis
    using assms(1) by (simp add: unat_max unat_min c unat_minus_one_size_t)
qed

section \<open>Enclosure: geometry\<close>

lemma contains_rect_refl: "contains_rect r r"
  by (simp add: contains_rect_def)

lemma contains_rect_trans:
  "contains_rect r s \<Longrightarrow> contains_rect s u \<Longrightarrow> contains_rect r u"
  by (auto simp: contains_rect_def)

lemma expand_valid:
  "\<not> invalid r \<Longrightarrow> \<not> invalid (expand r other)"
  by (auto simp: expand_def invalid_def)

lemma expand_contains_left:
  "\<not> invalid r \<Longrightarrow> contains_rect (expand r other) r"
  by (auto simp: expand_def invalid_def contains_rect_def)

lemma expand_contains_right:
  "\<not> invalid r \<Longrightarrow> \<not> invalid other \<Longrightarrow> contains_rect (expand r other) other"
  by (auto simp: expand_def invalid_def contains_rect_def)

lemma expand_least:
  "contains_rect R a \<Longrightarrow> contains_rect R b \<Longrightarrow> contains_rect R (expand a b)"
  by (auto simp: expand_def contains_rect_def)

lemma combine_valid:
  "\<not> invalid a \<Longrightarrow> \<not> invalid b \<Longrightarrow> combine a b = expand a b"
  by (simp add: combine_def expand_def Rect_def)


text \<open>The fold of \<open>expand\<close> over a list of rectangles, started from a valid one.\<close>

lemma fold_expand_valid:
  "\<not> invalid r0 \<Longrightarrow> \<not> invalid (fold (\<lambda>r m. expand m r) rs r0)"
  by (induction rs arbitrary: r0) (simp_all add: expand_valid)

lemma fold_expand_contains_start:
  "\<not> invalid r0 \<Longrightarrow> contains_rect (fold (\<lambda>r m. expand m r) rs r0) r0"
proof (induction rs arbitrary: r0)
  case Nil
  show ?case by (simp add: contains_rect_refl)
next
  case (Cons r rs)
  have "contains_rect (fold (\<lambda>r m. expand m r) rs (expand r0 r)) (expand r0 r)"
    by (rule Cons.IH) (rule expand_valid [OF Cons.prems])
  then show ?case
    using expand_contains_left [OF Cons.prems, of r] by (auto intro: contains_rect_trans)
qed

lemma fold_expand_contains_member:
  assumes "\<not> invalid r0" and "\<forall>r\<in>set rs. \<not> invalid r" and "r \<in> set rs"
  shows "contains_rect (fold (\<lambda>r m. expand m r) rs r0) r"
  using assms
proof (induction rs arbitrary: r0)
  case Nil
  then show ?case by simp
next
  case (Cons x rs)
  have v: "\<not> invalid (expand r0 x)" by (rule expand_valid [OF Cons.prems(1)])
  show ?case
  proof (cases "r = x")
    case True
    have "contains_rect (expand r0 x) x"
      using Cons.prems by (simp add: expand_contains_right)
    with fold_expand_contains_start [OF v, of rs] True show ?thesis
      by (auto intro: contains_rect_trans)
  next
    case False
    with Cons.prems have "r \<in> set rs" "\<forall>r\<in>set rs. \<not> invalid r" by simp_all
    with Cons.IH [OF v] show ?thesis by simp
  qed
qed

lemma fold_expand_least:
  assumes "contains_rect R r0" and "\<forall>r\<in>set rs. contains_rect R r"
  shows "contains_rect R (fold (\<lambda>r m. expand m r) rs r0)"
  using assms by (induction rs arbitrary: r0) (simp_all add: expand_least)

text \<open>What \<open>update_mbr\<close> computes, as a fold over the rectangles of the contents.\<close>

lemma first_valid_child_from_non_null:
  "cs \<noteq> [] \<Longrightarrow> cs ! 0 \<noteq> None \<Longrightarrow> first_valid_child_from cs 0 = 0"
  by (subst first_valid_child_from.simps) auto

lemma fold_expand_child_non_null:
  assumes "\<forall>c\<in>set cs. c \<noteq> None"
  shows "fold expand_child cs r0 = fold (\<lambda>r m. expand m r) (map (\<lambda>c. mbr (the c)) cs) r0"
  using assms by (induction cs arbitrary: r0) (auto simp: expand_child_def)

lemma mbr_update_mbr_leaf:
  assumes "is_leaf n" and "data_entries n \<noteq> []"
  shows "mbr (update_mbr n) = fold (\<lambda>r m. expand m r) (map bounds (tl (data_entries n)))
                                   (bounds (hd (data_entries n)))"
  using assms by (simp add: update_mbr_def set_mbr_def fold_map comp_def hd_conv_nth)

lemma mbr_update_mbr_internal:
  assumes "\<not> is_leaf n" and "children n \<noteq> []" and "\<forall>c\<in>set (children n). c \<noteq> None"
  shows "mbr (update_mbr n) = fold (\<lambda>r m. expand m r) (map (\<lambda>c. mbr (the c)) (tl (children n)))
                                   (mbr (the (hd (children n))))"
proof -
  have "children n ! 0 \<noteq> None" using assms(2,3) by (simp add: nth_mem)
  then have f: "first_valid_child_from (children n) 0 = 0"
    using assms(2) by (simp add: first_valid_child_from_non_null)
  have "\<forall>c\<in>set (tl (children n)). c \<noteq> None"
    using assms(2,3) by (auto dest: list.set_sel(2))
  then show ?thesis
    using assms(1,2)
    by (simp add: update_mbr_def set_mbr_def f Let_def fold_expand_child_non_null
                  hd_conv_nth drop_Suc)
qed

lemma update_mbr_fields [simp]:
  "addr (update_mbr n) = addr n" "is_leaf (update_mbr n) = is_leaf n"
  "parent (update_mbr n) = parent n" "data_entries (update_mbr n) = data_entries n"
  "children (update_mbr n) = children n"
  by (simp_all add: update_mbr_def set_mbr_def Let_def)

lemma set_mbr_fields [simp]:
  "addr (set_mbr r n) = addr n" "mbr (set_mbr r n) = r" "is_leaf (set_mbr r n) = is_leaf n"
  "parent (set_mbr r n) = parent n" "data_entries (set_mbr r n) = data_entries n"
  "children (set_mbr r n) = children n"
  by (simp_all add: set_mbr_def)

lemma set_parent_fields [simp]:
  "addr (set_parent p n) = addr n" "mbr (set_parent p n) = mbr n"
  "is_leaf (set_parent p n) = is_leaf n" "parent (set_parent p n) = p"
  "data_entries (set_parent p n) = data_entries n" "children (set_parent p n) = children n"
  by (simp_all add: set_parent_def)

lemma set_data_entries_fields [simp]:
  "addr (set_data_entries es n) = addr n" "mbr (set_data_entries es n) = mbr n"
  "is_leaf (set_data_entries es n) = is_leaf n" "parent (set_data_entries es n) = parent n"
  "data_entries (set_data_entries es n) = es" "children (set_data_entries es n) = children n"
  by (simp_all add: set_data_entries_def)

lemma set_children_fields [simp]:
  "addr (set_children cs n) = addr n" "mbr (set_children cs n) = mbr n"
  "is_leaf (set_children cs n) = is_leaf n" "parent (set_children cs n) = parent n"
  "data_entries (set_children cs n) = data_entries n" "children (set_children cs n) = cs"
  by (simp_all add: set_children_def)

lemma RTreeNode_new_fields [simp]:
  "addr (RTreeNode_new a l) = a" "mbr (RTreeNode_new a l) = Rectangle_default"
  "is_leaf (RTreeNode_new a l) = l" "parent (RTreeNode_new a l) = None"
  "data_entries (RTreeNode_new a l) = []" "children (RTreeNode_new a l) = []"
  by (simp_all add: RTreeNode_new_def)

text \<open>The hull that \<open>update_mbr\<close> computes for non-empty, valid contents.\<close>

lemma update_mbr_leaf_hull:
  assumes "is_leaf n" and "data_entries n \<noteq> []"
    and "\<forall>e\<in>set (data_entries n). \<not> invalid (bounds e)"
  shows "\<not> invalid (mbr (update_mbr n))"
    and "\<forall>e\<in>set (data_entries n). contains_rect (mbr (update_mbr n)) (bounds e)"
    and "(\<forall>e\<in>set (data_entries n). contains_rect R (bounds e)) \<Longrightarrow>
         contains_rect R (mbr (update_mbr n))"
proof -
  obtain e es where es: "data_entries n = e # es" using assms(2) by (cases "data_entries n") auto
  have m: "mbr (update_mbr n) = fold (\<lambda>r m. expand m r) (map bounds es) (bounds e)"
    using mbr_update_mbr_leaf [OF assms(1,2)] es by simp
  have ve: "\<not> invalid (bounds e)" and ves: "\<forall>r\<in>set (map bounds es). \<not> invalid r"
    using assms(3) es by simp_all
  show "\<not> invalid (mbr (update_mbr n))"
    unfolding m by (rule fold_expand_valid [OF ve])
  show "\<forall>e\<in>set (data_entries n). contains_rect (mbr (update_mbr n)) (bounds e)"
    unfolding m es
    using fold_expand_contains_start [OF ve, of "map bounds es"]
          fold_expand_contains_member [OF ve ves]
    by auto
  show "contains_rect R (mbr (update_mbr n))"
    if "\<forall>e\<in>set (data_entries n). contains_rect R (bounds e)"
    unfolding m using that es by (intro fold_expand_least) simp_all
qed

lemma update_mbr_internal_hull:
  assumes "\<not> is_leaf n" and "children n \<noteq> []"
    and "\<forall>c\<in>set (children n). c \<noteq> None \<and> \<not> invalid (mbr (the c))"
  shows "\<not> invalid (mbr (update_mbr n))"
    and "\<forall>c\<in>set (children n). contains_rect (mbr (update_mbr n)) (mbr (the c))"
    and "(\<forall>c\<in>set (children n). contains_rect R (mbr (the c))) \<Longrightarrow>
         contains_rect R (mbr (update_mbr n))"
proof -
  obtain c cs where cs: "children n = c # cs" using assms(2) by (cases "children n") auto
  have nn: "\<forall>c\<in>set (children n). c \<noteq> None" using assms(3) by simp
  have m: "mbr (update_mbr n) = fold (\<lambda>r m. expand m r) (map (\<lambda>c. mbr (the c)) cs) (mbr (the c))"
    using mbr_update_mbr_internal [OF assms(1,2) nn] cs by simp
  have vc: "\<not> invalid (mbr (the c))"
    and vcs: "\<forall>r\<in>set (map (\<lambda>c. mbr (the c)) cs). \<not> invalid r"
    using assms(3) cs by simp_all
  show "\<not> invalid (mbr (update_mbr n))"
    unfolding m by (rule fold_expand_valid [OF vc])
  show "\<forall>c\<in>set (children n). contains_rect (mbr (update_mbr n)) (mbr (the c))"
    unfolding m cs
    using fold_expand_contains_start [OF vc, of "map (\<lambda>c. mbr (the c)) cs"]
          fold_expand_contains_member [OF vc vcs]
    by auto
  show "contains_rect R (mbr (update_mbr n))"
    if "\<forall>c\<in>set (children n). contains_rect R (mbr (the c))"
    unfolding m using that cs by (intro fold_expand_least) simp_all
qed

section \<open>Splitting a node\<close>

lemma unat_size_t_bound: "unat (w :: size_t) < 2 ^ 64"
  using unsigned_less [of w] by simp

lemma unat_node_size_leaf:
  "is_leaf n \<Longrightarrow> length (data_entries n) < 2 ^ 64 \<Longrightarrow> unat (node_size n) = length (data_entries n)"
  by (simp add: node_size_def unat_of_nat)

lemma unat_node_size_internal:
  "\<not> is_leaf n \<Longrightarrow> length (children n) < 2 ^ 64 \<Longrightarrow> unat (node_size n) = length (children n)"
  by (simp add: node_size_def unat_of_nat)

lemma split_node_leaf:
  fixes mn :: size_t and node :: RTreeNode
  assumes "is_leaf node" and "2 \<le> length (data_entries node)"
    and "length (data_entries node) < 2 ^ 64"
  defines "k \<equiv> unat (split_index_of mn (node_size node))"
  shows "1 \<le> k \<and> k < length (data_entries node) \<and>
         split_node mn a node =
           (update_mbr (set_data_entries (take k (data_entries node)) node),
            update_mbr (set_data_entries (drop k (data_entries node))
                          (set_parent (parent node) (RTreeNode_new a True))))"
proof -
  have sz: "unat (node_size node) = length (data_entries node)"
    by (rule unat_node_size_leaf [OF assms(1,3)])
  have r: "1 \<le> k \<and> k < unat (node_size node)"
    unfolding k_def by (rule split_index_range) (simp add: sz assms(2))
  have "split_index_of mn (node_size node) < of_nat (length (data_entries node))"
    using r assms(3) by (simp add: word_less_nat_alt unat_of_nat sz k_def)
  then show ?thesis
    using r assms(1) by (simp add: split_node_def Let_def sz k_def)
qed

lemma split_node_internal:
  fixes mn :: size_t and node :: RTreeNode
  assumes "\<not> is_leaf node" and "2 \<le> length (children node)"
    and "length (children node) < 2 ^ 64"
  defines "k \<equiv> unat (split_index_of mn (node_size node))"
  shows "1 \<le> k \<and> k < length (children node) \<and>
         split_node mn a node =
           (update_mbr (set_children (take k (children node)) node),
            update_mbr (set_children
                          (map (map_option (set_parent (Some a))) (drop k (children node)))
                          (set_parent (parent node) (RTreeNode_new a False))))"
proof -
  have sz: "unat (node_size node) = length (children node)"
    by (rule unat_node_size_internal [OF assms(1,3)])
  have r: "1 \<le> k \<and> k < unat (node_size node)"
    unfolding k_def by (rule split_index_range) (simp add: sz assms(2))
  have "split_index_of mn (node_size node) < of_nat (length (children node))"
    using r assms(3) by (simp add: word_less_nat_alt unat_of_nat sz k_def)
  then show ?thesis
    using r assms(1) by (simp add: split_node_def Let_def sz k_def)
qed

text \<open>\<open>is_full\<close> on a node whose size is at most the capacity.\<close>

lemma is_full_leaf:
  assumes "is_leaf n" and "length (data_entries n) \<le> unat mx"
  shows "is_full n mx \<longleftrightarrow> length (data_entries n) = unat mx"
proof -
  have "length (data_entries n) < 2 ^ 64"
    using assms(2) unat_size_t_bound [of mx] by simp
  then have "unat (node_size n) = length (data_entries n)"
    by (rule unat_node_size_leaf [OF assms(1)])
  with assms(2) show ?thesis by (auto simp: is_full_def word_le_nat_alt)
qed

lemma is_full_internal:
  assumes "\<not> is_leaf n" and "length (children n) \<le> unat mx"
  shows "is_full n mx \<longleftrightarrow> length (children n) = unat mx"
proof -
  have "length (children n) < 2 ^ 64"
    using assms(2) unat_size_t_bound [of mx] by simp
  then have "unat (node_size n) = length (children n)"
    by (rule unat_node_size_internal [OF assms(1)])
  with assms(2) show ?thesis by (auto simp: is_full_def word_le_nat_alt)
qed

section \<open>The invariants, case by case\<close>

lemma struct_ok_leaf:
  "is_leaf n \<Longrightarrow> struct_ok m n \<longleftrightarrow> children n = [] \<and> length (data_entries n) < m"
  by (subst struct_ok.simps) simp

lemma struct_ok_internal:
  "\<not> is_leaf n \<Longrightarrow>
   struct_ok m n \<longleftrightarrow>
     children n \<noteq> [] \<and> length (children n) < m \<and>
     (\<forall>c\<in>set (children n). \<exists>ch. c = Some ch \<and> struct_ok m ch)"
  by (subst struct_ok.simps) (auto split: option.splits)

lemma encl_leaf:
  "is_leaf n \<Longrightarrow>
   encl n \<longleftrightarrow>
     \<not> invalid (mbr n) \<and>
     (\<forall>e\<in>set (data_entries n). \<not> invalid (bounds e) \<and> contains_rect (mbr n) (bounds e))"
  by (subst encl.simps) simp

lemma encl_internal:
  "\<not> is_leaf n \<Longrightarrow>
   encl n \<longleftrightarrow>
     \<not> invalid (mbr n) \<and>
     (\<forall>ch. Some ch \<in> set (children n) \<longrightarrow> contains_rect (mbr n) (mbr ch) \<and> encl ch)"
  by (subst encl.simps) (auto split: option.splits)

lemma items_of_leaf: "is_leaf n \<Longrightarrow> items_of n = data_entries n"
  by (subst items_of.simps) simp

lemma items_of_internal:
  "\<not> is_leaf n \<Longrightarrow> items_of n = concat (map child_items (children n))"
  by (subst items_of.simps) (simp add: child_items_def [abs_def])

lemma struct_ok_set_parent [simp]: "struct_ok m (set_parent p n) = struct_ok m n"
  by (cases "is_leaf n") (simp_all add: struct_ok_leaf struct_ok_internal)

lemma encl_set_parent [simp]: "encl (set_parent p n) = encl n"
  by (cases "is_leaf n") (simp_all add: encl_leaf encl_internal)

lemma items_of_set_parent [simp]: "items_of (set_parent p n) = items_of n"
  by (cases "is_leaf n") (simp_all add: items_of_leaf items_of_internal)

lemma child_items_set_parent [simp]:
  "child_items (map_option (set_parent p) c) = child_items c"
  by (cases c) (simp_all add: child_items_def)

lemma mset_concat_take_drop:
  "mset (concat (map f (take k xs))) + mset (concat (map f (drop k xs))) = mset (concat (map f xs))"
proof -
  have "concat (map f xs) = concat (map f (take k xs)) @ concat (map f (drop k xs))"
    by (metis append_take_drop_id concat_append map_append)
  then show ?thesis by simp
qed

lemma mset_concat_update:
  assumes "i < length xs"
  shows "mset (concat (map f (xs[i := y]))) + mset (f (xs ! i))
         = mset (concat (map f xs)) + mset (f y)"
  using assms
proof (induction xs arbitrary: i)
  case Nil
  then show ?case by simp
next
  case (Cons x xs)
  show ?case
  proof (cases i)
    case 0
    then show ?thesis by simp
  next
    case (Suc j)
    with Cons.prems have "j < length xs" by simp
    from Cons.IH [OF this] Suc show ?thesis by (simp add: ac_simps)
  qed
qed

section \<open>One insertion step\<close>

lemma insert_recursive_leaf:
  assumes "is_leaf node"
  shows "insert_recursive mn mx node item a =
         Inr (split_if_full mn mx a
                (set_data_entries (data_entries node @ [item])
                   (set_mbr (expand (mbr node) (bounds item)) node)))"
  using assms
  by (subst insert_recursive.simps) (simp add: Let_def split_if_full_def split: prod.splits)

lemma insert_recursive_internal:
  assumes "\<not> is_leaf node"
    and "choose_subtree (set_mbr (expand (mbr node) (bounds item)) node) (bounds item) = Inr i"
    and "insert_recursive mn mx (the (children node ! i)) item a = Inr (child, sp, a')"
  shows "insert_recursive mn mx node item a =
         (let node2 = set_children ((children node)[i := Some child])
                        (set_mbr (expand (mbr node) (bounds item)) node)
          in case sp of
               None \<Rightarrow> Inr (node2, None, a')
             | Some psn \<Rightarrow>
                 Inr (split_if_full mn mx a'
                        (set_children (children node2 @ [Some (set_parent (Some (addr node2)) psn)])
                           node2)))"
  using assms
  by (subst insert_recursive.simps)
     (simp add: Let_def split_if_full_def split: prod.splits option.splits)

lemma split_if_full_struct:
  assumes "struct_pre (unat mx) node" and "2 \<le> unat mx"
    and "split_if_full mn mx a node = (node', sp, a')"
  shows "struct_ok (unat mx) node' \<and> (\<forall>s. sp = Some s \<longrightarrow> struct_ok (unat mx) s)"
proof (cases "is_leaf node")
  case True
  with assms(1) have pre: "children node = []" "length (data_entries node) \<le> unat mx"
    by (simp_all add: struct_pre_def)
  show ?thesis
  proof (cases "is_full node mx")
    case False
    with is_full_leaf [OF True pre(2)] pre(2) have "length (data_entries node) < unat mx" by simp
    with False assms(3) True pre(1) show ?thesis
      by (auto simp: split_if_full_def struct_ok_leaf)
  next
    case full: True
    with is_full_leaf [OF True pre(2)] have len: "length (data_entries node) = unat mx" by simp
    have "1 \<le> unat (split_index_of mn (node_size node)) \<and>
          unat (split_index_of mn (node_size node)) < length (data_entries node) \<and>
          split_node mn a node =
           (update_mbr (set_data_entries (take (unat (split_index_of mn (node_size node))) (data_entries node)) node),
            update_mbr (set_data_entries (drop (unat (split_index_of mn (node_size node))) (data_entries node))
                          (set_parent (parent node) (RTreeNode_new a True))))"
      by (rule split_node_leaf [OF True]) (use len assms(2) unat_size_t_bound [of mx] in simp_all)
    with full assms(3) True pre(1) len show ?thesis
      by (auto simp: split_if_full_def struct_ok_leaf)
  qed
next
  case False
  with assms(1) have pre: "children node \<noteq> []" "length (children node) \<le> unat mx"
    "\<forall>c\<in>set (children node). \<exists>ch. c = Some ch \<and> struct_ok (unat mx) ch"
    by (simp_all add: struct_pre_def)
  show ?thesis
  proof (cases "is_full node mx")
    case nf: False
    with is_full_internal [OF False pre(2)] pre(2) have "length (children node) < unat mx" by simp
    with nf assms(3) False pre show ?thesis
      by (auto simp: split_if_full_def struct_ok_internal)
  next
    case full: True
    with is_full_internal [OF False pre(2)] have len: "length (children node) = unat mx" by simp
    let ?k = "unat (split_index_of mn (node_size node))"
    have k: "1 \<le> ?k \<and> ?k < length (children node) \<and>
          split_node mn a node =
           (update_mbr (set_children (take ?k (children node)) node),
            update_mbr (set_children (map (map_option (set_parent (Some a))) (drop ?k (children node)))
                          (set_parent (parent node) (RTreeNode_new a False))))"
      by (rule split_node_internal [OF False]) (use len assms(2) unat_size_t_bound [of mx] in simp_all)
    have t: "\<forall>c\<in>set (take ?k (children node)). \<exists>ch. c = Some ch \<and> struct_ok (unat mx) ch"
      using pre(3) by (auto dest: in_set_takeD)
    have d: "\<forall>c\<in>set (map (map_option (set_parent (Some a))) (drop ?k (children node))).
               \<exists>ch. c = Some ch \<and> struct_ok (unat mx) ch"
      using pre(3) by (auto dest!: in_set_dropD)
    from k full assms(3) False len t d show ?thesis
      by (auto simp: split_if_full_def struct_ok_internal)
  qed
qed

lemma encl_valid: "encl n \<Longrightarrow> \<not> invalid (mbr n)"
  by (subst (asm) encl.simps) simp

lemma encl_update_mbr_leaf:
  assumes "is_leaf n" and "data_entries n \<noteq> []"
    and "\<forall>e\<in>set (data_entries n). \<not> invalid (bounds e)"
  shows "encl (update_mbr n)"
proof -
  have l: "is_leaf (update_mbr n)" using assms(1) by simp
  show ?thesis
    unfolding encl_leaf [OF l]
    using update_mbr_leaf_hull(1,2) [OF assms] assms(3) by simp
qed

lemma encl_update_mbr_internal:
  assumes "\<not> is_leaf n" and "children n \<noteq> []"
    and "\<forall>c\<in>set (children n). c \<noteq> None \<and> \<not> invalid (mbr (the c))"
    and "\<forall>c\<in>set (children n). encl (the c)"
  shows "encl (update_mbr n)"
proof -
  have l: "\<not> is_leaf (update_mbr n)" using assms(1) by simp
  have "contains_rect (mbr (update_mbr n)) (mbr ch) \<and> encl ch"
    if "Some ch \<in> set (children n)" for ch
  proof -
    from update_mbr_internal_hull(2) [OF assms(1-3)] that
    have "contains_rect (mbr (update_mbr n)) (mbr (the (Some ch)))" by blast
    moreover from assms(4) that have "encl (the (Some ch))" by blast
    ultimately show ?thesis by simp
  qed
  then show ?thesis
    unfolding encl_internal [OF l]
    using update_mbr_internal_hull(1) [OF assms(1-3)] by simp
qed

lemma split_if_full_items:
  assumes "struct_pre (unat mx) node" and "2 \<le> unat mx"
    and "split_if_full mn mx a node = (node', sp, a')"
  shows "mset (items_of node') + mset (child_items sp) = mset (items_of node)"
proof (cases "is_full node mx")
  case False
  with assms(3) show ?thesis by (auto simp: split_if_full_def child_items_def)
next
  case full: True
  let ?k = "unat (split_index_of mn (node_size node))"
  show ?thesis
  proof (cases "is_leaf node")
    case True
    with assms(1) have pre: "length (data_entries node) \<le> unat mx"
      by (simp add: struct_pre_def)
    with is_full_leaf [OF True pre] full have len: "length (data_entries node) = unat mx" by simp
    have k: "1 \<le> ?k \<and> ?k < length (data_entries node) \<and>
          split_node mn a node =
           (update_mbr (set_data_entries (take ?k (data_entries node)) node),
            update_mbr (set_data_entries (drop ?k (data_entries node))
                          (set_parent (parent node) (RTreeNode_new a True))))"
      by (rule split_node_leaf [OF True]) (use len assms(2) unat_size_t_bound [of mx] in simp_all)
    have "mset (take ?k (data_entries node)) + mset (drop ?k (data_entries node))
          = mset (data_entries node)"
      by (metis append_take_drop_id mset_append)
    with k full assms(3) True show ?thesis
      by (auto simp: split_if_full_def items_of_leaf child_items_def)
  next
    case False
    with assms(1) have pre: "children node \<noteq> []" "length (children node) \<le> unat mx"
      by (simp_all add: struct_pre_def)
    with is_full_internal [OF False pre(2)] full have len: "length (children node) = unat mx" by simp
    have k: "1 \<le> ?k \<and> ?k < length (children node) \<and>
          split_node mn a node =
           (update_mbr (set_children (take ?k (children node)) node),
            update_mbr (set_children (map (map_option (set_parent (Some a))) (drop ?k (children node)))
                          (set_parent (parent node) (RTreeNode_new a False))))"
      by (rule split_node_internal [OF False]) (use len assms(2) unat_size_t_bound [of mx] in simp_all)
    have "mset (concat (map child_items (take ?k (children node))))
          + mset (concat (map child_items (drop ?k (children node))))
          = mset (concat (map child_items (children node)))"
      by (rule mset_concat_take_drop)
    with k full assms(3) False show ?thesis
      by (auto simp: split_if_full_def items_of_internal child_items_def [of "Some _"] comp_def)
  qed
qed

lemma split_if_full_encl:
  assumes "struct_pre (unat mx) node" and "2 \<le> unat mx" and "encl node"
    and "split_if_full mn mx a node = (node', sp, a')"
  shows "encl node' \<and> contains_rect (mbr node) (mbr node') \<and>
         (\<forall>s. sp = Some s \<longrightarrow> encl s \<and> contains_rect (mbr node) (mbr s))"
proof (cases "is_full node mx")
  case False
  with assms(3,4) show ?thesis by (auto simp: split_if_full_def contains_rect_refl)
next
  case full: True
  let ?k = "unat (split_index_of mn (node_size node))"
  show ?thesis
  proof (cases "is_leaf node")
    case True
    with assms(1) have pre: "length (data_entries node) \<le> unat mx"
      by (simp add: struct_pre_def)
    with is_full_leaf [OF True pre] full have len: "length (data_entries node) = unat mx" by simp
    let ?N = "set_data_entries (take ?k (data_entries node)) node"
    let ?S = "set_data_entries (drop ?k (data_entries node))
                (set_parent (parent node) (RTreeNode_new a True))"
    have k: "1 \<le> ?k \<and> ?k < length (data_entries node) \<and>
             split_node mn a node = (update_mbr ?N, update_mbr ?S)"
      by (rule split_node_leaf [OF True]) (use len assms(2) unat_size_t_bound [of mx] in simp_all)
    from assms(3) True
    have es: "\<forall>e\<in>set (data_entries node). \<not> invalid (bounds e) \<and> contains_rect (mbr node) (bounds e)"
      by (simp add: encl_leaf)
    have N: "is_leaf ?N" "data_entries ?N \<noteq> []"
      "\<forall>e\<in>set (data_entries ?N). \<not> invalid (bounds e)"
      "\<forall>e\<in>set (data_entries ?N). contains_rect (mbr node) (bounds e)"
      using True k es by (auto dest: in_set_takeD)
    have S: "is_leaf ?S" "data_entries ?S \<noteq> []"
      "\<forall>e\<in>set (data_entries ?S). \<not> invalid (bounds e)"
      "\<forall>e\<in>set (data_entries ?S). contains_rect (mbr node) (bounds e)"
      using True k es by (auto dest: in_set_dropD)
    have "encl (update_mbr ?N)"
      by (rule encl_update_mbr_leaf [OF N(1-3)])
    moreover have "contains_rect (mbr node) (mbr (update_mbr ?N))"
      by (rule update_mbr_leaf_hull(3) [OF N])
    moreover have "encl (update_mbr ?S)"
      by (rule encl_update_mbr_leaf [OF S(1-3)])
    moreover have "contains_rect (mbr node) (mbr (update_mbr ?S))"
      by (rule update_mbr_leaf_hull(3) [OF S])
    moreover have "node' = update_mbr ?N" "sp = Some (update_mbr ?S)"
      using k full assms(4) by (simp_all add: split_if_full_def)
    ultimately show ?thesis by simp
  next
    case False
    with assms(1) have pre: "children node \<noteq> []" "length (children node) \<le> unat mx"
      "\<forall>c\<in>set (children node). \<exists>ch. c = Some ch \<and> struct_ok (unat mx) ch"
      by (simp_all add: struct_pre_def)
    with is_full_internal [OF False pre(2)] full have len: "length (children node) = unat mx" by simp
    let ?N = "set_children (take ?k (children node)) node"
    let ?S = "set_children (map (map_option (set_parent (Some a))) (drop ?k (children node)))
                (set_parent (parent node) (RTreeNode_new a False))"
    have k: "1 \<le> ?k \<and> ?k < length (children node) \<and>
             split_node mn a node = (update_mbr ?N, update_mbr ?S)"
      by (rule split_node_internal [OF False]) (use len assms(2) unat_size_t_bound [of mx] in simp_all)
    from assms(3) False
    have cs: "\<forall>ch. Some ch \<in> set (children node) \<longrightarrow> contains_rect (mbr node) (mbr ch) \<and> encl ch"
      by (simp add: encl_internal)
    have all: "\<forall>c\<in>set (children node). c \<noteq> None \<and> \<not> invalid (mbr (the c)) \<and>
                 contains_rect (mbr node) (mbr (the c)) \<and> encl (the c)"
    proof
      fix c assume c: "c \<in> set (children node)"
      with pre(3) obtain ch where ch: "c = Some ch" by blast
      with c cs have "contains_rect (mbr node) (mbr ch)" "encl ch" by simp_all
      with ch encl_valid [of ch]
      show "c \<noteq> None \<and> \<not> invalid (mbr (the c)) \<and>
            contains_rect (mbr node) (mbr (the c)) \<and> encl (the c)"
        by simp
    qed
    have N: "\<not> is_leaf ?N" "children ?N \<noteq> []"
      "\<forall>c\<in>set (children ?N). c \<noteq> None \<and> \<not> invalid (mbr (the c))"
      "\<forall>c\<in>set (children ?N). contains_rect (mbr node) (mbr (the c))"
      "\<forall>c\<in>set (children ?N). encl (the c)"
      using False k pre(1) all by (auto dest: in_set_takeD)
    have S: "\<not> is_leaf ?S" "children ?S \<noteq> []"
      "\<forall>c\<in>set (children ?S). c \<noteq> None \<and> \<not> invalid (mbr (the c))"
      "\<forall>c\<in>set (children ?S). contains_rect (mbr node) (mbr (the c))"
      "\<forall>c\<in>set (children ?S). encl (the c)"
      using False k pre(1) all by (auto dest!: in_set_dropD)
    have "encl (update_mbr ?N)"
      by (rule encl_update_mbr_internal [OF N(1-3) N(5)])
    moreover have "contains_rect (mbr node) (mbr (update_mbr ?N))"
      by (rule update_mbr_internal_hull(3) [OF N(1-4)])
    moreover have "encl (update_mbr ?S)"
      by (rule encl_update_mbr_internal [OF S(1-3) S(5)])
    moreover have "contains_rect (mbr node) (mbr (update_mbr ?S))"
      by (rule update_mbr_internal_hull(3) [OF S(1-4)])
    moreover have "node' = update_mbr ?N" "sp = Some (update_mbr ?S)"
      using k full assms(4) by (simp_all add: split_if_full_def)
    ultimately show ?thesis by simp
  qed
qed

lemma first_non_null_exists:
  "Some c \<in> set cs \<Longrightarrow> first_non_null cs i \<noteq> None"
  by (induction cs arbitrary: i) auto

lemma choose_subtree_succeeds:
  assumes "Some c \<in> set (children n)"
  shows "\<exists>i. choose_subtree n b = Inr i"
proof -
  have "children n \<noteq> []" using assms by auto
  moreover have "first_non_null (children n) 0 \<noteq> None"
    by (rule first_non_null_exists [OF assms])
  ultimately show ?thesis
    by (auto simp: choose_subtree_def Let_def split: option.splits)
qed

lemma expand_mono:
  assumes "contains_rect r s" and "\<not> invalid r" and "\<not> invalid b"
  shows "contains_rect (expand r b) (expand s b)"
proof (rule expand_least)
  show "contains_rect (expand r b) s"
    using expand_contains_left [OF assms(2), of b] assms(1) by (auto intro: contains_rect_trans)
  show "contains_rect (expand r b) b"
    by (rule expand_contains_right [OF assms(2,3)])
qed

text \<open>
  The node after the recursive call: the chosen child is replaced, and the sibling the
  call returned, if any, is appended.
\<close>

lemma encl_after_descent:
  assumes "\<not> is_leaf node" and "encl node" and "\<not> invalid b"
    and "i < length (children node)" and "children node ! i = Some c"
    and "encl child" and "contains_rect (expand (mbr c) b) (mbr child)"
    and "\<forall>s. Some s \<in> set extra \<longrightarrow> encl s \<and> contains_rect (expand (mbr c) b) (mbr s)"
  shows "encl (set_children ((children node)[i := Some child] @ extra)
                 (set_mbr (expand (mbr node) b) node))"
    (is "encl ?n")
proof -
  let ?R = "expand (mbr node) b"
  have v: "\<not> invalid (mbr node)" by (rule encl_valid [OF assms(2)])
  have old: "\<forall>ch. Some ch \<in> set (children node) \<longrightarrow> contains_rect (mbr node) (mbr ch) \<and> encl ch"
    using assms(1,2) by (simp add: encl_internal)
  have "Some c \<in> set (children node)" using assms(4,5) by (metis nth_mem)
  with old have "contains_rect (mbr node) (mbr c)" by blast
  then have sub: "contains_rect ?R (expand (mbr c) b)"
    by (rule expand_mono [OF _ v assms(3)])
  have "contains_rect ?R (mbr ch) \<and> encl ch"
    if "Some ch \<in> set ((children node)[i := Some child] @ extra)" for ch
  proof -
    from that consider "Some ch \<in> set (children node)" | "ch = child" | "Some ch \<in> set extra"
      using set_update_subset_insert [of "children node" i "Some child"] by auto
    then show ?thesis
    proof cases
      case 1
      with old have "contains_rect (mbr node) (mbr ch)" "encl ch" by simp_all
      with expand_contains_left [OF v, of b] show ?thesis
        by (auto intro: contains_rect_trans)
    next
      case 2
      with assms(6,7) sub show ?thesis by (auto intro: contains_rect_trans)
    next
      case 3
      with assms(8) sub show ?thesis by (auto intro: contains_rect_trans)
    qed
  qed
  moreover have "\<not> is_leaf ?n" using assms(1) by simp
  moreover have "\<not> invalid (mbr ?n)" using expand_valid [OF v] by simp
  ultimately show ?thesis by (simp add: encl_internal)
qed

lemma struct_after_descent:
  assumes "\<forall>c\<in>set cs. \<exists>ch. c = Some ch \<and> struct_ok m ch" and "struct_ok m child"
    and "\<forall>s. Some s \<in> set extra \<longrightarrow> struct_ok m s" and "\<forall>c\<in>set extra. c \<noteq> None"
  shows "\<forall>c\<in>set (cs[i := Some child] @ extra). \<exists>ch. c = Some ch \<and> struct_ok m ch"
proof
  fix x assume "x \<in> set (cs[i := Some child] @ extra)"
  then consider "x \<in> set cs" | "x = Some child" | "x \<in> set extra"
    using set_update_subset_insert [of cs i "Some child"] by auto
  then show "\<exists>ch. x = Some ch \<and> struct_ok m ch"
  proof cases
    case 1 with assms(1) show ?thesis by blast
  next
    case 2 with assms(2) show ?thesis by blast
  next
    case 3 with assms(3,4) show ?thesis by (cases x) auto
  qed
qed

lemma ins_post_split_if_full:
  assumes pre: "struct_pre (unat mx) n2" and mx: "2 \<le> unat mx"
    and r: "split_if_full mn mx a n2 = (node', sp, a')"
    and items: "mset (items_of n2) = add_mset item (mset (items_of node))"
    and mbr2: "mbr n2 = expand (mbr node) (bounds item)"
    and encl2: "\<not> invalid (bounds item) \<and> encl node \<Longrightarrow> encl n2"
  shows "ins_post (unat mx) node item node' sp"
proof -
  note s = split_if_full_struct [OF pre mx r]
  note i = split_if_full_items [OF pre mx r]
  have "encl node' \<and> contains_rect (expand (mbr node) (bounds item)) (mbr node') \<and>
        (\<forall>s. sp = Some s \<longrightarrow>
           encl s \<and> contains_rect (expand (mbr node) (bounds item)) (mbr s))"
    if "\<not> invalid (bounds item) \<and> encl node"
    using split_if_full_encl [OF pre mx encl2 [OF that] r] by (simp add: mbr2)
  with s i items show ?thesis by (simp add: ins_post_def)
qed

lemma insert_recursive_post:
  assumes "struct_ok (unat mx) node" and "2 \<le> unat mx"
  shows "\<exists>node' sp a'. insert_recursive mn mx node item a = Inr (node', sp, a') \<and>
                        ins_post (unat mx) node item node' sp"
  using assms
proof (induction mn mx node item a rule: insert_recursive.induct)
  case (1 mn mx node item a)
  let ?b = "bounds item"
  let ?n1 = "set_mbr (expand (mbr node) ?b) node"
  let ?m = "unat mx"
  note mx = "1.prems"(2)
  show ?case
  proof (cases "is_leaf node")
    case True
    let ?n2 = "set_data_entries (data_entries node @ [item]) ?n1"
    obtain node' sp a' where r: "split_if_full mn mx a ?n2 = (node', sp, a')"
      by (cases "split_if_full mn mx a ?n2") auto
    have res: "insert_recursive mn mx node item a = Inr (node', sp, a')"
      using insert_recursive_leaf [OF True, of mn mx item a] r by simp
    have pre: "struct_pre ?m ?n2"
      using "1.prems"(1) True by (simp add: struct_pre_def struct_ok_leaf)
    have items: "mset (items_of ?n2) = add_mset item (mset (items_of node))"
      using True by (simp add: items_of_leaf)
    have encl2: "encl ?n2" if "\<not> invalid ?b \<and> encl node"
    proof -
      from that True have v: "\<not> invalid (mbr node)"
        and es: "\<forall>e\<in>set (data_entries node). \<not> invalid (bounds e) \<and> contains_rect (mbr node) (bounds e)"
        by (simp_all add: encl_leaf)
      have "contains_rect (expand (mbr node) ?b) (bounds e)" if "e \<in> set (data_entries node)" for e
        using es that expand_contains_left [OF v, of ?b] by (auto intro: contains_rect_trans)
      moreover have "contains_rect (expand (mbr node) ?b) ?b"
        using that v by (simp add: expand_contains_right)
      ultimately show ?thesis
        using True that es expand_valid [OF v, of ?b] by (auto simp: encl_leaf)
    qed
    have "ins_post ?m node item node' sp"
      by (rule ins_post_split_if_full [OF pre mx r items _ encl2]) simp_all
    with res show ?thesis by blast
  next
    case False
    from "1.prems"(1) False
    have cs: "children node \<noteq> []" "length (children node) < ?m"
      "\<forall>c\<in>set (children node). \<exists>ch. c = Some ch \<and> struct_ok ?m ch"
      by (simp_all add: struct_ok_internal)
    from cs(1,3) obtain c0 where "Some c0 \<in> set (children ?n1)"
      by (cases "children node") auto
    from choose_subtree_succeeds [OF this]
    obtain i where ch: "choose_subtree ?n1 ?b = Inr i" by blast
    from choose_subtree_index [OF ch] have i: "i < length (children node)" by simp
    with cs(3) obtain c where c: "children node ! i = Some c" "struct_ok ?m c"
      by (metis nth_mem)
    have "\<exists>node' sp a'. insert_recursive mn mx (the (children ?n1 ! i)) item a = Inr (node', sp, a') \<and>
                          ins_post ?m (the (children ?n1 ! i)) item node' sp"
      by (rule "1.IH" [OF refl _ ch _ mx]) (use False c in simp_all)
    then obtain child sp0 a0
      where rec: "insert_recursive mn mx (the (children node ! i)) item a = Inr (child, sp0, a0)"
        and post: "ins_post ?m c item child sp0"
      using c(1) by auto
    let ?n2 = "set_children ((children node)[i := Some child]) ?n1"
    have st_child: "struct_ok ?m child" using post by (simp add: ins_post_def)
    have it_child: "mset (items_of child) + mset (child_items sp0)
                    = add_mset item (mset (items_of c))"
      using post by (simp add: ins_post_def)
    have en_child: "encl child \<and> contains_rect (expand (mbr c) ?b) (mbr child) \<and>
                    (\<forall>s. sp0 = Some s \<longrightarrow> encl s \<and> contains_rect (expand (mbr c) ?b) (mbr s))"
      if "\<not> invalid ?b \<and> encl node"
    proof -
      from that False have "\<forall>ch. Some ch \<in> set (children node) \<longrightarrow> encl ch"
        by (simp add: encl_internal)
      moreover have "Some c \<in> set (children node)" using i c(1) by (metis nth_mem)
      ultimately have "encl c" by blast
      with that post show ?thesis by (simp add: ins_post_def)
    qed
    have upd: "mset (concat (map child_items ((children node)[i := Some child])))
                 + mset (child_items (children node ! i))
               = mset (concat (map child_items (children node))) + mset (child_items (Some child))"
      by (rule mset_concat_update [OF i])
    have items2: "mset (items_of ?n2) + mset (child_items sp0)
                  = add_mset item (mset (items_of node))"
    proof -
      have "mset (items_of ?n2) + mset (items_of c)
            = mset (items_of node) + mset (items_of child)"
        using upd False c(1) by (simp add: items_of_internal child_items_def)
      then have "mset (items_of ?n2) + mset (items_of c) + mset (child_items sp0)
            = mset (items_of node) + (mset (items_of child) + mset (child_items sp0))"
        by (simp add: ac_simps)
      also have "\<dots> = mset (items_of node) + add_mset item (mset (items_of c))"
        by (simp only: it_child)
      finally show ?thesis by simp
    qed
    show ?thesis
    proof (cases sp0)
      case None
      have res: "insert_recursive mn mx node item a = Inr (?n2, None, a0)"
        using insert_recursive_internal [OF False ch, of mn mx a child sp0 a0] rec None
        by (simp add: Let_def)
      have all2: "\<forall>x\<in>set ((children node)[i := Some child] @ []). \<exists>ch. x = Some ch \<and> struct_ok ?m ch"
        by (rule struct_after_descent [OF cs(3) st_child]) simp_all
      have st2: "struct_ok ?m ?n2"
        using False cs(1,2) all2 by (simp add: struct_ok_internal)
      have en2: "encl ?n2 \<and> contains_rect (expand (mbr node) ?b) (mbr ?n2)"
        if h: "\<not> invalid ?b \<and> encl node"
      proof -
        have "encl (set_children ((children node)[i := Some child] @ []) ?n1)"
          by (rule encl_after_descent [OF False _ _ i c(1)]) (use h en_child [OF h] in simp_all)
        then show ?thesis by (simp add: contains_rect_refl)
      qed
      have "ins_post ?m node item ?n2 None"
        using st2 items2 en2 None by (simp add: ins_post_def child_items_def)
      with res show ?thesis by blast
    next
      case (Some psn)
      let ?psn = "set_parent (Some (addr ?n2)) psn"
      let ?n3 = "set_children (children ?n2 @ [Some ?psn]) ?n2"
      obtain node' sp a' where r: "split_if_full mn mx a0 ?n3 = (node', sp, a')"
        by (cases "split_if_full mn mx a0 ?n3") auto
      have res: "insert_recursive mn mx node item a = Inr (node', sp, a')"
        using insert_recursive_internal [OF False ch, of mn mx a child sp0 a0] rec Some r
        by (simp add: Let_def)
      have st_psn: "struct_ok ?m psn" using post Some by (simp add: ins_post_def)
      have all3: "\<forall>x\<in>set ((children node)[i := Some child] @ [Some ?psn]).
                    \<exists>ch. x = Some ch \<and> struct_ok ?m ch"
        by (rule struct_after_descent [OF cs(3) st_child]) (use st_psn in simp_all)
      have pre: "struct_pre ?m ?n3"
        using False cs(2) all3 by (simp add: struct_pre_def)
      have items3: "mset (items_of ?n3) = add_mset item (mset (items_of node))"
      proof -
        have "mset (items_of ?n3) = mset (items_of ?n2) + mset (items_of psn)"
          using False by (simp add: items_of_internal child_items_def [of "Some _"])
        with items2 Some show ?thesis by (simp add: child_items_def)
      qed
      have encl3: "encl ?n3" if h: "\<not> invalid ?b \<and> encl node"
      proof -
        have "encl (set_children ((children node)[i := Some child] @ [Some ?psn]) ?n1)"
          by (rule encl_after_descent [OF False _ _ i c(1)])
             (use h en_child [OF h] Some in simp_all)
        then show ?thesis by (simp add: set_children_def)
      qed
      have "ins_post ?m node item node' sp"
        by (rule ins_post_split_if_full [OF pre mx r items3 _ encl3]) simp_all
      with res show ?thesis by blast
    qed
  qed
qed

section \<open>Whole-tree invariants\<close>

lemma tree_ok_RTree_new: "tree_ok (RTree_new mn mx)"
proof -
  have "3 \<le> unat (max 3 (max (max 2 mn * 2) mx))"
    by (simp add: unat_max)
  then show ?thesis
    by (simp add: tree_ok_def RTree_new_def Let_def struct_ok_leaf)
qed



lemma insert_rtree_post:
  assumes "tree_ok t"
  shows "\<exists>t'. insert_rtree t item = Inr t' \<and> tree_ok t' \<and>
              max_entries' t' = max_entries' t \<and> min_entries' t' = min_entries' t \<and>
              mset (tree_items t') = add_mset item (mset (tree_items t)) \<and>
              (\<not> invalid (bounds item) \<and> tree_encl t \<longrightarrow> tree_encl t')"
proof -
  let ?m = "unat (max_entries' t)"
  from assms obtain r where r: "root' t = Some r" "struct_ok ?m r" and m3: "3 \<le> ?m"
    by (auto simp: tree_ok_def)
  have m2: "2 \<le> ?m" using m3 by simp
  from insert_recursive_post [OF r(2) m2, of "min_entries' t" item "next_addr t"]
  obtain node' sp a'
    where rec: "insert_recursive (min_entries' t) (max_entries' t) r item (next_addr t)
                = Inr (node', sp, a')"
      and post: "ins_post ?m r item node' sp"
    by blast
  show ?thesis
  proof (cases sp)
    case None
    let ?t' = "t\<lparr>root' := Some node', next_addr := a'\<rparr>"
    have res: "insert_rtree t item = Inr ?t'"
      using r(1) rec None by (simp add: insert_rtree_def)
    have "tree_ok ?t'" using post m3 by (simp add: tree_ok_def ins_post_def)
    moreover have "mset (tree_items ?t') = add_mset item (mset (tree_items t))"
      using post None r(1) by (simp add: tree_items_def ins_post_def child_items_def)
    moreover have "tree_encl ?t'" if "\<not> invalid (bounds item) \<and> tree_encl t"
      using that post r(1) by (simp add: tree_encl_def ins_post_def)
    ultimately show ?thesis using res by auto
  next
    case (Some s)
    let ?old = "set_parent (Some a') node'"
    let ?split = "set_parent (Some a') s"
    let ?new = "set_children [Some ?old, Some ?split]
                  (set_mbr (combine (mbr ?old) (mbr ?split)) (RTreeNode_new a' False))"
    let ?t' = "t\<lparr>root' := Some ?new, next_addr := Suc a'\<rparr>"
    have res: "insert_rtree t item = Inr ?t'"
      using r(1) rec Some by (simp add: insert_rtree_def Let_def set_children_def)
    have "struct_ok ?m ?new"
      using post Some m3 by (simp add: struct_ok_internal ins_post_def)
    then have "tree_ok ?t'" using m3 by (simp add: tree_ok_def)
    moreover have "mset (tree_items ?t') = add_mset item (mset (tree_items t))"
      using post Some r(1)
      by (simp add: tree_items_def ins_post_def items_of_internal child_items_def)
    moreover have "tree_encl ?t'" if h: "\<not> invalid (bounds item) \<and> tree_encl t"
    proof -
      from h post r(1) Some have e: "encl node'" "encl s"
        by (simp_all add: tree_encl_def ins_post_def)
      then have v: "\<not> invalid (mbr node')" "\<not> invalid (mbr s)"
        by (simp_all add: encl_valid)
      have "encl ?new"
        using e v expand_valid [OF v(1), of "mbr s"] expand_contains_left [OF v(1), of "mbr s"]
              expand_contains_right [OF v]
        by (simp add: encl_internal combine_valid)
      then show ?thesis by (simp add: tree_encl_def)
    qed
    ultimately show ?thesis using res by auto
  qed
qed

lemma insert_all_post:
  assumes "tree_ok t"
  shows "\<exists>t'. insert_all t items = Inr t' \<and> tree_ok t' \<and>
              max_entries' t' = max_entries' t \<and> min_entries' t' = min_entries' t \<and>
              mset (tree_items t') = mset (tree_items t) + mset items \<and>
              ((\<forall>i\<in>set items. \<not> invalid (bounds i)) \<and> tree_encl t \<longrightarrow> tree_encl t')"
  using assms
proof (induction items arbitrary: t)
  case Nil
  then show ?case by simp
next
  case (Cons item items)
  from insert_rtree_post [OF Cons.prems, of item]
  obtain t1 where t1: "insert_rtree t item = Inr t1" "tree_ok t1"
    "max_entries' t1 = max_entries' t" "min_entries' t1 = min_entries' t"
    "mset (tree_items t1) = add_mset item (mset (tree_items t))"
    "\<not> invalid (bounds item) \<and> tree_encl t \<longrightarrow> tree_encl t1"
    by blast
  from Cons.IH [OF t1(2)]
  obtain t' where t': "insert_all t1 items = Inr t'" "tree_ok t'"
    "max_entries' t' = max_entries' t1" "min_entries' t' = min_entries' t1"
    "mset (tree_items t') = mset (tree_items t1) + mset items"
    "(\<forall>i\<in>set items. \<not> invalid (bounds i)) \<and> tree_encl t1 \<longrightarrow> tree_encl t'"
    by blast
  have "insert_all t (item # items) = Inr t'" using t1(1) t'(1) by simp
  moreover have "mset (tree_items t') = mset (tree_items t) + mset (item # items)"
    using t1(5) t'(5) by simp
  moreover have "tree_encl t'"
    if "(\<forall>i\<in>set (item # items). \<not> invalid (bounds i)) \<and> tree_encl t"
    using that t1(6) t'(6) by simp
  ultimately show ?case using t1 t' by auto
qed

section \<open>Search on an enclosing tree\<close>






section \<open>Search returns the inserted items that intersect the query\<close>



lemma insert_all_five_items: "insert_all (RTree_new 2 3) five_items = Inr five_tree"
  unfolding five_items_def five_tree_def by code_simp


section \<open>Fanout\<close>

lemma subtree_nodes_child:
  assumes "Some c \<in> set (children p)" and "n \<in> set (subtree_nodes c)"
  shows "n \<in> set (subtree_nodes p)"
  using assms by (subst subtree_nodes.simps) (force split: option.splits)

lemma subtree_nodes_cases:
  assumes "n \<in> set (subtree_nodes p)"
  shows "n = p \<or> (\<exists>c. Some c \<in> set (children p) \<and> n \<in> set (subtree_nodes c))"
  using assms by (subst (asm) subtree_nodes.simps) (auto split: option.splits)

lemma descendants_subset: "set (descendants r) \<subseteq> set (subtree_nodes r)"
  by (subst subtree_nodes.simps) (auto simp: descendants_def)

lemma struct_ok_all_nodes:
  "struct_ok m r \<Longrightarrow> n \<in> set (subtree_nodes r) \<Longrightarrow>
   (if is_leaf n then length (data_entries n) else length (children n)) < m"
proof (induction r rule: subtree_nodes.induct)
  case (1 r)
  from subtree_nodes_cases [OF "1.prems"(2)] show ?case
  proof
    assume "n = r"
    with "1.prems"(1) show ?thesis
      by (cases "is_leaf r") (simp_all add: struct_ok_leaf struct_ok_internal)
  next
    assume "\<exists>c. Some c \<in> set (children r) \<and> n \<in> set (subtree_nodes c)"
    then obtain c where c: "Some c \<in> set (children r)" "n \<in> set (subtree_nodes c)" by blast
    with "1.prems"(1) have "\<not> is_leaf r" by (auto simp: struct_ok_leaf)
    with "1.prems"(1) c(1) have "struct_ok m c" by (auto simp: struct_ok_internal)
    from "1.IH" [OF c(1) refl this c(2)] show ?thesis .
  qed
qed

text \<open>
  C6. In a tree built by any sequence of \<open>insert\<close> calls on a freshly constructed tree,
  every node other than the root has \<open>size()\<close> at most \<open>max_entries_\<close>.
\<close>

theorem fanout_bound:
  assumes "insert_all (RTree_new mn mx) items = Inr t"
  shows "\<forall>n\<in>set (non_root_nodes t). node_size n \<le> max_entries' t"
proof
  fix n assume n: "n \<in> set (non_root_nodes t)"
  from insert_all_post [OF tree_ok_RTree_new, of mn mx items] assms
  have "tree_ok t" by auto
  then obtain r where r: "root' t = Some r" "struct_ok (unat (max_entries' t)) r"
    by (auto simp: tree_ok_def)
  from n r(1) descendants_subset [of r] have "n \<in> set (subtree_nodes r)"
    by (auto simp: non_root_nodes_def)
  from struct_ok_all_nodes [OF r(2) this]
  have len: "(if is_leaf n then length (data_entries n) else length (children n)) < unat (max_entries' t)" .
  then have "(if is_leaf n then length (data_entries n) else length (children n)) < 2 ^ 64"
    using unat_size_t_bound [of "max_entries' t"] by simp
  then have "unat (node_size n) = (if is_leaf n then length (data_entries n) else length (children n))"
    by (auto simp: node_size_def unat_of_nat split: if_splits)
  with len show "node_size n \<le> max_entries' t" by (simp add: word_le_nat_alt)
qed

theorem fanout_bound_witness:
  "list_all (\<lambda>n. node_size n \<le> max_entries' five_tree) (non_root_nodes five_tree) \<and>
   map addr (non_root_nodes five_tree) = [0, 1]"
proof -
  have "map addr (non_root_nodes five_tree) = [0, 1]"
    unfolding five_tree_def by code_simp
  with fanout_bound [OF insert_all_five_items] show ?thesis
    by (simp add: list_all_iff)
qed

section \<open>Exceptions\<close>

lemma choose_subtree_error:
  assumes "choose_subtree n b = Inl e"
  shows "if children n = [] then e = NoChildren
         else e = NoValidChild \<and> (\<forall>c\<in>set (children n). c = None)"
proof (cases "children n = []")
  case True
  with assms show ?thesis by (simp add: choose_subtree_def)
next
  case False
  have "c = None" if "c \<in> set (children n)" for c
  proof (cases c)
    case (Some ch)
    with that choose_subtree_succeeds [of ch n b] assms show ?thesis by auto
  qed simp
  moreover have "e = NoValidChild"
    using assms False by (auto simp: choose_subtree_def Let_def split: option.splits)
  ultimately show ?thesis using False by simp
qed

lemma insert_recursive_internal_throw:
  assumes "\<not> is_leaf node"
    and "choose_subtree (set_mbr (expand (mbr node) (bounds item)) node) (bounds item) = Inl e"
  shows "insert_recursive mn mx node item a = Inl e"
  using assms by (subst insert_recursive.simps) (simp add: Let_def)

lemma insert_recursive_internal_rethrow:
  assumes "\<not> is_leaf node"
    and "choose_subtree (set_mbr (expand (mbr node) (bounds item)) node) (bounds item) = Inr i"
    and "insert_recursive mn mx (the (children node ! i)) item a = Inl e"
  shows "insert_recursive mn mx node item a = Inl e"
  using assms by (subst insert_recursive.simps) (simp add: Let_def)

lemma subtree_nodes_self: "n \<in> set (subtree_nodes n)"
  by (subst subtree_nodes.simps) simp

lemma insert_recursive_error:
  assumes "insert_recursive mn mx node item a = Inl e"
  shows "\<exists>n. n \<in> set (subtree_nodes node) \<and> \<not> is_leaf n \<and>
             (if children n = [] then e = NoChildren
              else e = NoValidChild \<and> (\<forall>c\<in>set (children n). c = None))"
  using assms
proof (induction mn mx node item a rule: insert_recursive.induct)
  case (1 mn mx node item a)
  let ?n1 = "set_mbr (expand (mbr node) (bounds item)) node"
  have internal: "\<not> is_leaf node"
    using "1.prems" insert_recursive_leaf [of node mn mx item a] by auto
  show ?case
  proof (cases "choose_subtree ?n1 (bounds item)")
    case (Inl e')
    from insert_recursive_internal_throw [OF internal Inl, of mn mx a] "1.prems"
    have "e' = e" by simp
    with choose_subtree_error [OF Inl] internal subtree_nodes_self [of node]
    show ?thesis by (intro exI [of _ node]) (auto split: if_splits)
  next
    case (Inr i)
    from choose_subtree_index [OF Inr]
    obtain c where c: "i < length (children node)" "children node ! i = Some c" by auto
    then have mem: "Some c \<in> set (children node)" by (metis nth_mem)
    show ?thesis
    proof (cases "insert_recursive mn mx c item a")
      case (Inl e')
      then have "insert_recursive mn mx node item a = Inl e'"
        using insert_recursive_internal_rethrow [OF internal Inr, of mn mx a e'] c(2) by simp
      with "1.prems" have "e' = e" by simp
      have "\<exists>n. n \<in> set (subtree_nodes (the (children ?n1 ! i))) \<and> \<not> is_leaf n \<and>
                 (if children n = [] then e = NoChildren
                  else e = NoValidChild \<and> (\<forall>c\<in>set (children n). c = None))"
        by (rule "1.IH" [OF refl _ Inr]) (use internal c(2) Inl \<open>e' = e\<close> in simp_all)
      then obtain n where "n \<in> set (subtree_nodes c)" "\<not> is_leaf n"
        "if children n = [] then e = NoChildren
         else e = NoValidChild \<and> (\<forall>c\<in>set (children n). c = None)"
        using c(2) by auto
      with subtree_nodes_child [OF mem] show ?thesis by blast
    next
      case (Inr res)
      obtain child sp a' where "res = (child, sp, a')" by (cases res)
      with Inr c(2) have "insert_recursive mn mx (the (children node ! i)) item a = Inr (child, sp, a')"
        by simp
      from insert_recursive_internal [OF internal \<open>choose_subtree ?n1 (bounds item) = Inr i\<close> this]
           "1.prems"
      show ?thesis by (simp add: Let_def split: option.splits)
    qed
  qed
qed

text \<open>
  C9. \<open>search\<close>, \<open>search_with_population\<close> and \<open>empty\<close> contain no \<open>throw\<close>: they are
  total functions whose result type has no error. Every \<open>insert\<close> call of every sequence
  of calls on a freshly constructed tree returns normally. On an arbitrary tree state,
  an \<open>insert\<close> call that throws does so from \<open>choose_subtree\<close> at an internal node of the
  tree that has no children (the first error) or no non-null child (the second).
\<close>

theorem insert_throws_only_on_malformed_node:
  "(\<exists>t'. insert_all (RTree_new mn mx) items = Inr t') \<and>
   (insert_rtree t item = Inl e \<longrightarrow>
      (\<exists>n. n \<in> set (tree_nodes t) \<and> \<not> is_leaf n \<and>
           (if children n = [] then e = NoChildren
            else e = NoValidChild \<and> (\<forall>c\<in>set (children n). c = None))))"
proof
  from insert_all_post [OF tree_ok_RTree_new, of mn mx items]
  show "\<exists>t'. insert_all (RTree_new mn mx) items = Inr t'" by blast
next
  show "insert_rtree t item = Inl e \<longrightarrow>
      (\<exists>n. n \<in> set (tree_nodes t) \<and> \<not> is_leaf n \<and>
           (if children n = [] then e = NoChildren
            else e = NoValidChild \<and> (\<forall>c\<in>set (children n). c = None)))"
  proof
    assume throws: "insert_rtree t item = Inl e"
    show "\<exists>n. n \<in> set (tree_nodes t) \<and> \<not> is_leaf n \<and>
           (if children n = [] then e = NoChildren
            else e = NoValidChild \<and> (\<forall>c\<in>set (children n). c = None))"
    proof (cases "root' t")
      case None
      have "insert_recursive (min_entries' t) (max_entries' t) (RTreeNode_new (next_addr t) True)
              item (Suc (next_addr t)) \<noteq> Inl e"
        by (simp add: insert_recursive_leaf)
      with throws None show ?thesis
        by (auto simp: insert_rtree_def Let_def split: sum.splits option.splits)
    next
      case (Some r)
      with throws
      have "insert_recursive (min_entries' t) (max_entries' t) r item (next_addr t) = Inl e"
        by (auto simp: insert_rtree_def Let_def split: sum.splits option.splits)
      from insert_recursive_error [OF this] Some show ?thesis
        by (simp add: tree_nodes_def)
    qed
  qed
qed

theorem insert_throws_only_on_malformed_node_witness:
  "insert_rtree childless_tree (DataItem 1 ''a'' 0 (Rect 0 0 1 1)) = Inl NoChildren \<and>
   (\<exists>n. n \<in> set (tree_nodes childless_tree) \<and> \<not> is_leaf n \<and> children n = []) \<and>
   (\<exists>t'. insert_all (RTree_new 2 4) five_items = Inr t')"
proof -
  have throws: "insert_rtree childless_tree (DataItem 1 ''a'' 0 (Rect 0 0 1 1)) = Inl NoChildren"
    unfolding childless_tree_def by code_simp
  from insert_throws_only_on_malformed_node
         [of 2 4 five_items childless_tree "DataItem 1 ''a'' 0 (Rect 0 0 1 1)" NoChildren]
       throws
  show ?thesis by (auto split: if_splits)
qed

section \<open>The cached rectangle after the first insertion\<close>

text \<open>
  C2 (the code at the failing input). \<open>Rectangle()\<close> is \<open>(0,0)-(0,0)\<close>, which passes the
  validity test, although the comments of \<open>RTreeNode::RTreeNode\<close> and \<open>update_mbr\<close>
  call it the invalid state. So the empty root of a fresh tree has a valid rectangle,
  and the first \<open>insert\<close>, of an item with bounds \<open>(5,5)-(6,6)\<close>, expands that rectangle
  to \<open>(0,0)-(6,6)\<close> instead of adopting the item's bounds: the root's cached rectangle
  is not the union of its entries' bounds, which \<open>update_mbr\<close> computes as
  \<open>(5,5)-(6,6)\<close>.
\<close>

theorem root_mbr_not_tight_after_first_insert:
  "\<not> invalid (mbr (the (root' (RTree_new 2 4)))) \<and>
   insert_rtree (RTree_new 2 4) first_item
     = Inr \<lparr>root' = Some first_root, min_entries' = 2, max_entries' = 4, next_addr = 1\<rparr> \<and>
   mbr first_root = Rect 0 0 6 6 \<and>
   mbr (update_mbr first_root) = Rect 5 5 6 6"
  unfolding first_root_def first_item_def by code_simp

section \<open>The positional split\<close>

text \<open>
  C7, as stated, fails for an odd size above \<open>2 * min_entries_\<close>: a tree with
  \<open>min_entries_ = 2\<close> and \<open>max_entries_ = 5\<close> splits its root leaf at the fifth insertion,
  and the original node keeps two entries while the new sibling receives three.
\<close>

theorem split_surplus_counterexample:
  "split_node 2 1 full_leaf =
     (RTreeNode 0 (Rect 1 1 7 7) True None (take 2 five_items) [],
      RTreeNode 1 (Rect 0 1 8 7) True None (drop 2 five_items) []) \<and>
   length (take 2 five_items) = 2 \<and> length (drop 2 five_items) = 3 \<and>
   max_entries' (RTree_new 2 5) = 5 \<and>
   insert_all (RTree_new 2 5) five_items =
     Inr \<lparr>root' = Some (RTreeNode 2 (Rect 0 1 8 7) False None []
                       [Some (RTreeNode 0 (Rect 1 1 7 7) True (Some 2) (take 2 five_items) []),
                        Some (RTreeNode 1 (Rect 0 1 8 7) True (Some 2) (drop 2 five_items) [])]),
          min_entries' = 2, max_entries' = 5, next_addr = 3\<rparr>"
  unfolding full_leaf_def five_items_def by code_simp

lemma update_mbr_set_mbr: "update_mbr (set_mbr r n) = update_mbr n"
  by (simp add: update_mbr_def Let_def) (simp add: set_mbr_def)

lemma update_mbr_idem: "update_mbr (update_mbr n) = update_mbr n"
proof -
  have "update_mbr n = set_mbr (mbr (update_mbr n)) n"
    by (simp add: update_mbr_def Let_def set_mbr_def)
  then have "update_mbr (update_mbr n) = update_mbr (set_mbr (mbr (update_mbr n)) n)"
    by simp
  then show ?thesis by (simp only: update_mbr_set_mbr)
qed

lemma moved_child_parent:
  assumes "Some c \<in> set (map (map_option (set_parent p)) cs)"
  shows "parent c = p"
proof -
  from assms obtain x where x: "Some c = map_option (set_parent p) x" by auto
  show ?thesis
  proof (cases x)
    case None
    with x show ?thesis by simp
  next
    case (Some ch)
    with x have "c = set_parent p ch" by simp
    then show ?thesis by simp
  qed
qed

lemma entry_count_node_size:
  assumes "entry_count node < 2 ^ 64"
  shows "unat (node_size node) = entry_count node"
  using assms by (auto simp: entry_count_def node_size_def unat_of_nat)

text \<open>
  C7, amended. A node of size \<open>n\<close> with \<open>2 \<le> n < 2^64\<close> is divided at one position
  \<open>k\<close> with \<open>1 \<le> k < n\<close>: the original node keeps the first \<open>k\<close> entries or children
  and the new sibling receives the rest. Whenever \<open>n \<ge> 2 * min_entries_\<close>, \<open>k\<close> is
  \<open>n div 2\<close>, so each side gets at least \<open>min_entries_\<close> and, for odd \<open>n\<close>, the larger
  share goes to the new sibling; when \<open>n < 2 * min_entries_\<close> (and the product does not
  wrap), \<open>k\<close> is \<open>(n + 1) div 2\<close> and the larger share stays in the original. Afterwards
  the \<open>mbr\<close> of both nodes is what \<open>update_mbr\<close> computes, and every child moved to the new
  sibling has its \<open>parent\<close> pointer set to the new sibling.
\<close>

theorem split_node_positional:
  assumes "2 \<le> entry_count node" and "entry_count node < 2 ^ 64"
  shows "1 \<le> split_position mn node \<and> split_position mn node < entry_count node \<and>
         (2 * unat mn \<le> entry_count node \<longrightarrow>
            split_position mn node = entry_count node div 2 \<and>
            unat mn \<le> split_position mn node \<and>
            unat mn \<le> entry_count node - split_position mn node) \<and>
         (entry_count node < 2 * unat mn \<and> unat mn < 2 ^ 63 \<longrightarrow>
            split_position mn node = (entry_count node + 1) div 2) \<and>
         (case split_node mn a node of
            (node', new_node) \<Rightarrow>
              addr node' = addr node \<and> addr new_node = a \<and>
              is_leaf node' = is_leaf node \<and> is_leaf new_node = is_leaf node \<and>
              parent node' = parent node \<and> parent new_node = parent node \<and>
              (if is_leaf node then
                 data_entries node' = take (split_position mn node) (data_entries node) \<and>
                 data_entries new_node = drop (split_position mn node) (data_entries node) \<and>
                 children node' = children node \<and> children new_node = []
               else
                 children node' = take (split_position mn node) (children node) \<and>
                 children new_node =
                   map (map_option (set_parent (Some (addr new_node))))
                       (drop (split_position mn node) (children node)) \<and>
                 (\<forall>c. Some c \<in> set (children new_node) \<longrightarrow> parent c = Some (addr new_node)) \<and>
                 data_entries node' = data_entries node \<and> data_entries new_node = []) \<and>
              update_mbr node' = node' \<and> update_mbr new_node = new_node)"
proof -
  let ?n = "entry_count node"
  let ?k = "split_position mn node"
  have sz: "unat (node_size node) = ?n" by (rule entry_count_node_size [OF assms(2)])
  have range: "1 \<le> ?k \<and> ?k < ?n"
    using split_index_range [of "node_size node" mn] assms(1) sz by (simp add: split_position_def)
  have half: "?k = ?n div 2 \<and> unat mn \<le> ?k \<and> unat mn \<le> ?n - ?k" if "2 * unat mn \<le> ?n"
  proof -
    have "?k = ?n div 2"
      using split_index_half [of "node_size node" mn] assms(1) that sz
      by (simp add: split_position_def)
    with that show ?thesis by auto
  qed
  have ceil: "?k = (?n + 1) div 2" if "?n < 2 * unat mn \<and> unat mn < 2 ^ 63"
    using split_index_ceil [of "node_size node" mn] assms(1) that sz
    by (simp add: split_position_def)
  have split: "case split_node mn a node of
            (node', new_node) \<Rightarrow>
              addr node' = addr node \<and> addr new_node = a \<and>
              is_leaf node' = is_leaf node \<and> is_leaf new_node = is_leaf node \<and>
              parent node' = parent node \<and> parent new_node = parent node \<and>
              (if is_leaf node then
                 data_entries node' = take ?k (data_entries node) \<and>
                 data_entries new_node = drop ?k (data_entries node) \<and>
                 children node' = children node \<and> children new_node = []
               else
                 children node' = take ?k (children node) \<and>
                 children new_node =
                   map (map_option (set_parent (Some (addr new_node)))) (drop ?k (children node)) \<and>
                 (\<forall>c. Some c \<in> set (children new_node) \<longrightarrow> parent c = Some (addr new_node)) \<and>
                 data_entries node' = data_entries node \<and> data_entries new_node = []) \<and>
              update_mbr node' = node' \<and> update_mbr new_node = new_node"
  proof (cases "is_leaf node")
    case True
    with assms have "2 \<le> length (data_entries node)" "length (data_entries node) < 2 ^ 64"
      by (simp_all add: entry_count_def)
    from split_node_leaf [OF True this, of mn a] True show ?thesis
      by (simp add: split_position_def update_mbr_idem)
  next
    case False
    with assms have "2 \<le> length (children node)" "length (children node) < 2 ^ 64"
      by (simp_all add: entry_count_def)
    from split_node_internal [OF False this, of mn a] False show ?thesis
      by (auto simp: split_position_def update_mbr_idem
               intro: moved_child_parent [of _ "Some a" "drop (split_position mn node) (children node)"])
  qed
  from range half ceil split show ?thesis by blast
qed

theorem split_node_positional_witness:
  "split_position 2 full_leaf = 2 \<and>
   data_entries (fst (split_node 2 1 full_leaf)) = take 2 five_items \<and>
   data_entries (snd (split_node 2 1 full_leaf)) = drop 2 five_items \<and>
   split_position 3 full_leaf = 3 \<and>
   split_position 2 example_internal = 2 \<and>
   map (map_option addr) (children (fst (split_node 2 7 example_internal))) = [None, Some 1] \<and>
   map (map_option addr) (children (snd (split_node 2 7 example_internal))) = [Some 2, Some 3] \<and>
   map (map_option parent) (children (snd (split_node 2 7 example_internal))) = [Some (Some 7), Some (Some 7)]"
proof -
  have n: "entry_count full_leaf = 5"
    by (simp add: entry_count_def full_leaf_def five_items_def)
  have h: "2 \<le> entry_count full_leaf" "entry_count full_leaf < 2 ^ 64"
    by (simp_all add: n)
  have es: "data_entries full_leaf = five_items" "is_leaf full_leaf"
    by (simp_all add: full_leaf_def)
  have n': "entry_count example_internal = 4"
    by (simp add: entry_count_def example_internal_def)
  have h': "2 \<le> entry_count example_internal" "entry_count example_internal < 2 ^ 64"
    by (simp_all add: n')
  have cs: "\<not> is_leaf example_internal"
    "children example_internal =
       [None,
        Some (RTreeNode 1 (Rect 0 0 4 4) True (Some 9) [] []),
        Some (RTreeNode 2 (Rect 5 5 7 7) True (Some 9) [] []),
        Some (RTreeNode 3 (Rect 5 5 6 6) True (Some 9) [] [])]"
    by (simp_all add: example_internal_def)
  from split_node_positional [OF h, of 2 1] split_node_positional [OF h, of 3 1]
  have leaf: "split_position 2 full_leaf = 2 \<and>
   data_entries (fst (split_node 2 1 full_leaf)) = take 2 five_items \<and>
   data_entries (snd (split_node 2 1 full_leaf)) = drop 2 five_items \<and>
   split_position 3 full_leaf = 3"
    by (simp add: n es split: prod.splits)
  from split_node_positional [OF h', of 2 7]
  have internal: "split_position 2 example_internal = 2 \<and>
   map (map_option addr) (children (fst (split_node 2 7 example_internal))) = [None, Some 1] \<and>
   map (map_option addr) (children (snd (split_node 2 7 example_internal))) = [Some 2, Some 3] \<and>
   map (map_option parent) (children (snd (split_node 2 7 example_internal))) = [Some (Some 7), Some (Some 7)]"
    by (simp add: n' cs split: prod.splits)
  from leaf internal show ?thesis by simp
qed

end
